theory Spec2Isabelle
  imports Main "HOL-Library.Sublist"
begin

section \<open>Python strings, integers and errors\<close>

text \<open>
  A Python \<open>str\<close> is modelled as a \<open>string\<close>; a \<open>char\<close> stands for the code point
  \<open>of_char c\<close>, so the model covers the strings whose code points are below 256. The
  character classes below are those of Python 3 on these code points: \<open>\d\<close> and \<open>\w\<close> of
  the \<open>re\<close> module on \<open>str\<close> patterns, and the white space of \<open>str.strip\<close>.
  Python's integers are unbounded and modelled as \<open>int\<close>.
\<close>

definition is_digit :: "char \<Rightarrow> bool" where
  "is_digit c = (let n = (of_char c :: nat) in 48 \<le> n \<and> n \<le> 57)"

definition is_word :: "char \<Rightarrow> bool" where
  "is_word c =
     (let n = (of_char c :: nat) in
        (48 \<le> n \<and> n \<le> 57) \<or> (65 \<le> n \<and> n \<le> 90) \<or> n = 95 \<or> (97 \<le> n \<and> n \<le> 122)
        \<or> n = 170 \<or> n = 178 \<or> n = 179 \<or> n = 181 \<or> n = 185 \<or> n = 186
        \<or> (188 \<le> n \<and> n \<le> 190) \<or> (192 \<le> n \<and> n \<le> 214)
        \<or> (216 \<le> n \<and> n \<le> 246) \<or> 248 \<le> n)"

definition is_space :: "char \<Rightarrow> bool" where
  "is_space c =
     (let n = (of_char c :: nat) in
        (9 \<le> n \<and> n \<le> 13) \<or> (28 \<le> n \<and> n \<le> 32) \<or> n = 133 \<or> n = 160)"

text \<open>The exceptions the script can raise, one constructor for each place that raises.\<close>

datatype error =
    AttributeError              \<comment> \<open>\<open>re.search(...)\<close> returned \<open>None\<close>, so \<open>.groups()\<close> raises\<close>
  | IntLiteralError string      \<comment> \<open>\<open>ValueError\<close> of \<open>int(s)\<close>: \<open>s\<close> is not a decimal literal\<close>
  | UnpackError nat             \<comment> \<open>\<open>ValueError\<close> of the three-way unpacking: values found before it gave up\<close>
  | InvalidTorchVersion string  \<comment> \<open>\<open>ValueError(f"Invalid torch version: {torch_version}")\<close>\<close>
  | InvalidTorch string         \<comment> \<open>\<open>ValueError(f"invalid torch: {pytorch_version}")\<close>\<close>
  | ImportError                 \<comment> \<open>\<open>import torch\<close> without the package\<close>

fun message :: "error \<Rightarrow> string" where
  "message (InvalidTorchVersion v) = ''Invalid torch version: '' @ v"
| "message (InvalidTorch v) = ''invalid torch: '' @ v"
| "message _ = []"

text \<open>
  The two error kinds of the specification: a \<open>ParseError\<close> is what the script raises when
  the version has no numeric-dot run or does not unpack into three integers; an
  \<open>InvalidVersionError\<close> is the explicit \<open>ValueError\<close> of an unsupported major version.
\<close>

fun is_ParseError :: "error \<Rightarrow> bool" where
  "is_ParseError AttributeError = True"
| "is_ParseError (IntLiteralError s) = True"
| "is_ParseError (UnpackError n) = True"
| "is_ParseError _ = False"

fun is_InvalidVersionError :: "error \<Rightarrow> bool" where
  "is_InvalidVersionError (InvalidTorchVersion v) = True"
| "is_InvalidVersionError _ = False"

subsection \<open>\<open>str(n)\<close> and \<open>int(s)\<close>\<close>

definition digit_char :: "nat \<Rightarrow> char" where
  "digit_char d = ''0123456789'' ! d"

function str_nat :: "nat \<Rightarrow> string" where
  "str_nat n = (if n < 10 then [digit_char n] else str_nat (n div 10) @ [digit_char (n mod 10)])"
  by pat_completeness auto
termination
  by (relation "measure id") auto

declare str_nat.simps [simp del]

definition str :: "int \<Rightarrow> string" where
  "str i = (if i < 0 then CHR ''-'' # str_nat (nat (- i)) else str_nat (nat i))"

definition digit_val :: "char \<Rightarrow> int" where
  "digit_val c = int (of_char c) - 48"

text \<open>
  \<open>int(s)\<close>, as far as the script uses it: its argument is always a piece of a run of
  digits and dots cut at the dots, so a (possibly empty) string of digits. A non-empty
  string of digits is read in base ten, leading zeros allowed; the empty string raises.
\<close>

definition py_int :: "string \<Rightarrow> error + int" where
  "py_int s =
     (if s \<noteq> [] \<and> list_all is_digit s then Inr (foldl (\<lambda>a c. 10 * a + digit_val c) 0 s)
      else Inl (IntLiteralError s))"

subsection \<open>\<open>str.split\<close>, \<open>str.join\<close>, \<open>str.strip\<close>\<close>

text \<open>\<open>s.split(sep)\<close> for a one-character separator: empty pieces are kept.\<close>

fun split :: "char \<Rightarrow> string \<Rightarrow> string list" where
  "split sep [] = [[]]"
| "split sep (c # cs) =
     (if c = sep then [] # split sep cs
      else (case split sep cs of p # ps \<Rightarrow> (c # p) # ps | [] \<Rightarrow> [[c]]))"

text \<open>\<open>s.split(sep, maxsplit=1)\<close>: cut at the first separator only.\<close>

definition split1 :: "char \<Rightarrow> string \<Rightarrow> string list" where
  "split1 sep s =
     (let a = takeWhile (\<lambda>c. c \<noteq> sep) s; b = dropWhile (\<lambda>c. c \<noteq> sep) s
      in if b = [] then [a] else [a, tl b])"

fun join :: "string \<Rightarrow> string list \<Rightarrow> string" where
  "join sep [] = []"
| "join sep [p] = p"
| "join sep (p # q # ps) = p @ sep @ join sep (q # ps)"

definition rstrip :: "string \<Rightarrow> string" where
  "rstrip s = rev (dropWhile is_space (rev s))"

definition strip :: "string \<Rightarrow> string" where
  "strip s = rstrip (dropWhile is_space s)"

subsection \<open>\<open>re.search(r"([\.\d]+)", s).groups()[0]\<close>\<close>

definition is_verchar :: "char \<Rightarrow> bool" where
  "is_verchar c = (c = CHR ''.'' \<or> is_digit c)"

text \<open>
  The leftmost match of \<open>[\.\d]+\<close> starts at the first dot or digit of the string and,
  being greedy, takes the whole run. Without a dot or digit \<open>re.search\<close> returns \<open>None\<close>
  and \<open>.groups()\<close> raises \<open>AttributeError\<close>.
\<close>

definition search_version :: "string \<Rightarrow> error + string" where
  "search_version s =
     (let t = dropWhile (\<lambda>c. \<not> is_verchar c) s
      in if t = [] then Inl AttributeError else Inr (takeWhile is_verchar t))"

section \<open>The version rules of \<open>adjust-torch-versions.py\<close>\<close>

text \<open>
  \<open>ver_major, ver_minor, ver_bugfix = map(int, torch_ver.split("."))\<close>. The \<open>map\<close> is lazy
  and the unpacking draws from it: three values one after the other, each \<open>int\<close> call
  raising on its own piece, then once more to see whether a fourth value is there.
\<close>

fun unpack3 :: "string list \<Rightarrow> error + (int \<times> int \<times> int)" where
  "unpack3 [] = Inl (UnpackError 0)"
| "unpack3 [a] = (case py_int a of Inl e \<Rightarrow> Inl e | Inr x \<Rightarrow> Inl (UnpackError 1))"
| "unpack3 [a, b] =
     (case py_int a of Inl e \<Rightarrow> Inl e | Inr x \<Rightarrow>
      (case py_int b of Inl e \<Rightarrow> Inl e | Inr y \<Rightarrow> Inl (UnpackError 2)))"
| "unpack3 (a # b # c # rest) =
     (case py_int a of Inl e \<Rightarrow> Inl e | Inr x \<Rightarrow>
      (case py_int b of Inl e \<Rightarrow> Inl e | Inr y \<Rightarrow>
       (case py_int c of Inl e \<Rightarrow> Inl e | Inr z \<Rightarrow>
        (case rest of [] \<Rightarrow> Inr (x, y, z)
         | d # _ \<Rightarrow> (case py_int d of Inl e \<Rightarrow> Inl e | Inr w \<Rightarrow> Inl (UnpackError 4))))))"

definition parse3 :: "string \<Rightarrow> error + (int \<times> int \<times> int)" where
  "parse3 torch_ver = unpack3 (split CHR ''.'' torch_ver)"

definition render :: "int list \<Rightarrow> string" where
  "render ver_array = join ''.'' (map str ver_array)"

definition torchaudio_exceptions :: "(string \<times> string) list" where
  "torchaudio_exceptions = [(''1.8.2'', ''0.9.1'')]"

definition torchtext_exceptions :: "(string \<times> string) list" where
  "torchtext_exceptions =
     [(''2.0.1'', ''0.15.2''), (''2.0.0'', ''0.15.1''), (''1.8.2'', ''0.9.1'')]"

definition torchvision_exceptions :: "(string \<times> string) list" where
  "torchvision_exceptions =
     [(''2.0.1'', ''0.15.2''), (''2.0.0'', ''0.15.1''), (''1.10.2'', ''0.11.3''),
      (''1.10.1'', ''0.11.2''), (''1.10.0'', ''0.11.1''), (''1.8.2'', ''0.9.1'')]"

text \<open>
  Each rule looks the run up in its table first. The arithmetic after the table is named
  \<open>*_fallback\<close> here; it is the rest of the body of the source function.
\<close>

definition torchaudio_fallback :: "int \<times> int \<times> int \<Rightarrow> string" where
  "torchaudio_fallback v =
     (case v of (ver_major, ver_minor, ver_bugfix) \<Rightarrow>
        (let ta_ver_array = [ver_major, ver_minor, ver_bugfix];
             ta_ver_array = (if ver_major = 1 then ta_ver_array[0 := 0] else ta_ver_array);
             ta_ver_array = ta_ver_array[2 := ver_bugfix]
         in render ta_ver_array))"

definition torchtext_fallback :: "string \<Rightarrow> int \<times> int \<times> int \<Rightarrow> error + string" where
  "torchtext_fallback torch_version v =
     (case v of (ver_major, ver_minor, ver_bugfix) \<Rightarrow>
        (let tt_ver_array = [0, 0, 0]
         in if ver_major = 1
            then Inr (render (tt_ver_array[1 := ver_minor + 1, 2 := ver_bugfix]))
            else if ver_major = 2
            then (if ver_minor \<ge> 3 then Inr (render (tt_ver_array[1 := 18]))
                  else Inr (render (tt_ver_array[1 := ver_minor + 15, 2 := ver_bugfix])))
            else Inl (InvalidTorchVersion torch_version)))"

definition torchvision_fallback :: "string \<Rightarrow> int \<times> int \<times> int \<Rightarrow> error + string" where
  "torchvision_fallback torch_version v =
     (case v of (ver_major, ver_minor, ver_bugfix) \<Rightarrow>
        (let tv_ver_array = [0, 0, 0]
         in if ver_major = 1
            then Inr (render (tv_ver_array[1 := ver_minor + 1, 2 := ver_bugfix]))
            else if ver_major = 2
            then Inr (render (tv_ver_array[1 := ver_minor + 15, 2 := ver_bugfix]))
            else Inl (InvalidTorchVersion torch_version)))"

definition determine_torchaudio :: "string \<Rightarrow> error + string" where
  "determine_torchaudio torch_version =
     (case search_version torch_version of Inl e \<Rightarrow> Inl e | Inr torch_ver \<Rightarrow>
      (case map_of torchaudio_exceptions torch_ver of Some v \<Rightarrow> Inr v | None \<Rightarrow>
       (case parse3 torch_ver of Inl e \<Rightarrow> Inl e | Inr v \<Rightarrow> Inr (torchaudio_fallback v))))"

definition determine_torchtext :: "string \<Rightarrow> error + string" where
  "determine_torchtext torch_version =
     (case search_version torch_version of Inl e \<Rightarrow> Inl e | Inr torch_ver \<Rightarrow>
      (case map_of torchtext_exceptions torch_ver of Some v \<Rightarrow> Inr v | None \<Rightarrow>
       (case parse3 torch_ver of Inl e \<Rightarrow> Inl e | Inr v \<Rightarrow> torchtext_fallback torch_version v)))"

definition determine_torchvision :: "string \<Rightarrow> error + string" where
  "determine_torchvision torch_version =
     (case search_version torch_version of Inl e \<Rightarrow> Inl e | Inr torch_ver \<Rightarrow>
      (case map_of torchvision_exceptions torch_ver of Some v \<Rightarrow> Inr v | None \<Rightarrow>
       (case parse3 torch_ver of Inl e \<Rightarrow> Inl e | Inr v \<Rightarrow> torchvision_fallback torch_version v)))"

text \<open>
  \<open>find_latest\<close>: the first run of digits and dots, without one trailing dot. The
  dictionary literal evaluates its values in the order written, so \<open>torchvision\<close> is
  determined first, then \<open>torchtext\<close>, then \<open>torchaudio\<close>, and the first exception leaves
  the function. The dictionary keeps the order of insertion: an association list.
\<close>

type_synonym options = "(string \<times> string) list"

text \<open>\<open>ver[:-1] if ver[-1] == "." else ver\<close>, on the run found, which is not empty.\<close>

definition drop_trailing_dot :: "string \<Rightarrow> string" where
  "drop_trailing_dot ver = (if last ver = CHR ''.'' then butlast ver else ver)"

definition find_latest :: "string \<Rightarrow> error + options" where
  "find_latest ver0 =
     (case search_version ver0 of Inl e \<Rightarrow> Inl e | Inr ver1 \<Rightarrow>
      (let ver = drop_trailing_dot ver1 in
       (case determine_torchvision ver of Inl e \<Rightarrow> Inl e | Inr tv \<Rightarrow>
        (case determine_torchtext ver of Inl e \<Rightarrow> Inl e | Inr tt \<Rightarrow>
         (case determine_torchaudio ver of Inl e \<Rightarrow> Inl e | Inr ta \<Rightarrow>
            Inr [(''torch'', ver), (''torchvision'', tv), (''torchtext'', tt),
                 (''torchaudio'', ta)])))))"

section \<open>Rewriting the requirements\<close>

subsection \<open>\<open>re.sub(rf"\b{lib}(?![-_\w]).*", replace, req)\<close>\<close>

text \<open>
  The pattern is read at a position of the string, \<open>prev\<close> being the character before the
  position (\<open>None\<close> at the start) and \<open>s\<close> the rest. \<open>\b\<close> holds where exactly one of the two
  neighbours is a word character; \<open>lib\<close> is a literal, as the four keys of the dictionary
  are plain letters; the negative lookahead refuses a hyphen, an underscore or a word
  character after the name; \<open>.*\<close> takes the rest of the line, since \<open>.\<close> matches every
  character but the line feed.
\<close>

definition word_boundary :: "char option \<Rightarrow> string \<Rightarrow> bool" where
  "word_boundary prev s =
     ((case prev of None \<Rightarrow> False | Some c \<Rightarrow> is_word c)
        \<noteq> (case s of [] \<Rightarrow> False | c # _ \<Rightarrow> is_word c))"

definition lookahead :: "string \<Rightarrow> bool" where
  "lookahead t =
     (case t of [] \<Rightarrow> True | c # _ \<Rightarrow> c \<noteq> CHR ''-'' \<and> c \<noteq> CHR ''_'' \<and> \<not> is_word c)"

definition match_here :: "string \<Rightarrow> char option \<Rightarrow> string \<Rightarrow> bool" where
  "match_here lib prev s =
     (word_boundary prev s \<and> take (length lib) s = lib \<and> lookahead (drop (length lib) s))"

definition match_len :: "string \<Rightarrow> string \<Rightarrow> nat" where
  "match_len lib s =
     length lib + length (takeWhile (\<lambda>c. c \<noteq> CHR 0x0A) (drop (length lib) s))"

text \<open>
  \<open>re.sub\<close> replaces the matches it finds from left to right, each search starting where
  the match before ended. The replacement has no backslash, so it is copied as it is. A
  match is never empty because the name is not (the test \<open>lib \<noteq> []\<close> says so to the
  termination proof).
\<close>

function re_sub :: "string \<Rightarrow> string \<Rightarrow> char option \<Rightarrow> string \<Rightarrow> string" where
  "re_sub lib repl prev [] = []"
| "re_sub lib repl prev (c # cs) =
     (if lib \<noteq> [] \<and> match_here lib prev (c # cs)
      then (let n = match_len lib (c # cs)
            in repl @ re_sub lib repl (Some (last (take n (c # cs)))) (drop n (c # cs)))
      else c # re_sub lib repl (Some c) cs)"
  by pat_completeness auto
termination
  by (relation "measure (\<lambda>(lib, repl, prev, s). length s)") (auto simp: match_len_def)

declare re_sub.simps(2) [simp del]

subsection \<open>\<open>adjust\<close>\<close>

text \<open>\<open>replace = f"{lib}=={version}" if version else ""\<close>\<close>

definition replacement :: "string \<Rightarrow> string \<Rightarrow> string" where
  "replacement lib version = (if version \<noteq> [] then lib @ ''=='' @ version else [])"

text \<open>The inner loop: every entry of \<open>options\<close>, in its order, on the result of the one before.\<close>

definition substitute :: "options \<Rightarrow> string \<Rightarrow> string" where
  "substitute options req =
     foldl (\<lambda>req (lib, version). re_sub lib (replacement lib version) None req) req options"

text \<open>The body of the outer loop: what is appended to \<open>requires_\<close> for the line \<open>req\<close>.\<close>

definition adjust_line :: "options \<Rightarrow> string \<Rightarrow> string" where
  "adjust_line options req0 =
     (let req_split = split1 CHR ''#'' (strip req0);
          req = strip (hd req_split);
          comment = (if length req_split < 2 then [] else ''  #'' @ req_split ! 1)
      in if req = [] then strip comment
         else substitute options req @ rstrip comment)"

text \<open>
  \<open>adjust\<close>. Without a version (\<open>None\<close> or the empty string) the script imports \<open>torch\<close>
  and reads its version: \<open>torch_installed\<close> is that version, \<open>None\<close> when the package is
  absent. The list \<open>requires_\<close> (here \<open>requires'\<close>) grows by one line for each line read.
\<close>

definition adjust :: "string option \<Rightarrow> string list \<Rightarrow> string option \<Rightarrow> error + string list" where
  "adjust torch_installed requires pytorch_version =
     (case (if pytorch_version = None \<or> pytorch_version = Some []
            then (case torch_installed of None \<Rightarrow> Inl ImportError | Some v \<Rightarrow> Inr v)
            else Inr (the pytorch_version)) of
        Inl e \<Rightarrow> Inl e
      | Inr pytorch_version \<Rightarrow>
          if pytorch_version = [] then Inl (InvalidTorch pytorch_version)
          else (case find_latest pytorch_version of Inl e \<Rightarrow> Inl e
                | Inr options \<Rightarrow>
                    Inr (foldl (\<lambda>requires' req. requires' @ [adjust_line options req]) [] requires)))"

section \<open>Notions of the specification\<close>

text \<open>
  A version string splits into exactly three integer components when cutting it at the
  dots gives three pieces, each a non-empty string of digits.
\<close>

definition is_integer :: "string \<Rightarrow> bool" where
  "is_integer s = (s \<noteq> [] \<and> list_all is_digit s)"

definition three_integer_components :: "string \<Rightarrow> bool" where
  "three_integer_components s =
     (case split CHR ''.'' s of [a, b, c] \<Rightarrow> is_integer a \<and> is_integer b \<and> is_integer c
      | _ \<Rightarrow> False)"

text \<open>A pin covers an early 2.0.x or a 1.10.x release of the primary package.\<close>

definition covers_2_0_or_1_10 :: "string \<Rightarrow> bool" where
  "covers_2_0_or_1_10 k = (prefix ''2.0.'' k \<or> prefix ''1.10.'' k)"

definition five_early_pins :: "(string \<times> string) list \<Rightarrow> bool" where
  "five_early_pins table = (length table = 5 \<and> list_all (\<lambda>(k, v). covers_2_0_or_1_10 k) table)"

text \<open>
  The name \<open>lib\<close> occurs in \<open>s\<close> at position \<open>p\<close>; the occurrence is immediately followed by an
  identifier character, a hyphen or an underscore.
\<close>

definition occurs_at :: "string \<Rightarrow> string \<Rightarrow> nat \<Rightarrow> bool" where
  "occurs_at lib s p = (take (length lib) (drop p s) = lib)"

definition name_continues :: "string \<Rightarrow> string \<Rightarrow> nat \<Rightarrow> bool" where
  "name_continues lib s p =
     (case drop (p + length lib) s of [] \<Rightarrow> False
      | c # _ \<Rightarrow> c = CHR ''-'' \<or> c = CHR ''_'' \<or> is_word c)"

text \<open>
  The keys of the dictionary are package names: not empty, made of word characters, not
  starting with a digit. The replacement written for a name and a version is its pin.
\<close>

abbreviation LF :: char where
  "LF \<equiv> CHR 0x0A"

definition is_name :: "string \<Rightarrow> bool" where
  "is_name lib = (lib \<noteq> [] \<and> list_all is_word lib \<and> \<not> is_digit (hd lib))"

definition pin :: "string \<Rightarrow> string \<Rightarrow> string" where
  "pin lib version = lib @ ''=='' @ version"

text \<open>
  What the substitution needs of the dictionary: distinct keys that are names, and
  versions that are non-empty strings of digits and dots.
\<close>

definition well_formed :: "options \<Rightarrow> bool" where
  "well_formed options =
     (distinct (map fst options)
      \<and> list_all (\<lambda>(lib, version). is_name lib \<and> version \<noteq> [] \<and> list_all is_verchar version)
           options)"

text \<open>The inner loop of \<open>adjust\<close>, started anywhere in a string (after the character \<open>p\<close>).\<close>

definition substitute_from :: "char option \<Rightarrow> options \<Rightarrow> string \<Rightarrow> string" where
  "substitute_from p options req =
     foldl (\<lambda>req (lib, version). re_sub lib (replacement lib version) p req) req options"

text \<open>A requirement that is not empty, has no white space at its ends and no \<open>#\<close>.\<close>

definition trimmed :: "string \<Rightarrow> bool" where
  "trimmed y = (y \<noteq> [] \<and> \<not> is_space (hd y) \<and> \<not> is_space (last y) \<and> CHR ''#'' \<notin> set y)"

text \<open>
  The first rule of the dictionary that changes the requirement wins: the result of the
  loop is the result of that rule alone (the requirement itself when no rule changes it).
\<close>

definition first_match_wins :: "options \<Rightarrow> string \<Rightarrow> bool" where
  "first_match_wins options req =
     (substitute options req =
        (case find (\<lambda>(lib, version). re_sub lib (replacement lib version) None req \<noteq> req) options of
           None \<Rightarrow> req
         | Some (lib, version) \<Rightarrow> re_sub lib (replacement lib version) None req))"

text \<open>
  The package name of a requirement: its leading run of letters, digits, underscores,
  hyphens and dots. A requirement for a package whose name strictly extends \<open>lib\<close> is
  rewritten by the rule of \<open>lib\<close>.
\<close>

definition is_name_char :: "char \<Rightarrow> bool" where
  "is_name_char c = (is_word c \<or> c = CHR ''-'' \<or> c = CHR ''.'')"

definition package_name :: "string \<Rightarrow> string" where
  "package_name req = takeWhile is_name_char req"

definition rewritten_extension :: "string \<Rightarrow> string \<Rightarrow> string \<Rightarrow> bool" where
  "rewritten_extension lib repl req =
     (strict_prefix lib (package_name req) \<and> re_sub lib repl None req \<noteq> req)"

section \<open>Decimal numerals\<close>

lemma lt10_cases: "d < (10::nat) \<Longrightarrow> d \<in> {0,1,2,3,4,5,6,7,8,9}"
  by auto

lemma digit_char_is_digit: "d < 10 \<Longrightarrow> is_digit (digit_char d)"
  by (drule lt10_cases) (auto simp: digit_char_def is_digit_def)

lemma digit_val_digit_char: "d < 10 \<Longrightarrow> digit_val (digit_char d) = int d"
  by (drule lt10_cases) (auto simp: digit_char_def digit_val_def)

lemma str_nat_digits: "list_all is_digit (str_nat n)"
  by (induction n rule: str_nat.induct) (subst str_nat.simps, simp add: digit_char_is_digit)

lemma str_nat_not_Nil: "str_nat n \<noteq> []"
  by (subst str_nat.simps) simp

lemma digits_val_str_nat: "foldl (\<lambda>a c. 10 * a + digit_val c) 0 (str_nat n) = int n"
proof (induction n rule: str_nat.induct)
  case (1 n)
  show ?case
  proof (cases "n < 10")
    case True
    then show ?thesis by (subst str_nat.simps) (simp add: digit_val_digit_char)
  next
    case False
    with 1 have "foldl (\<lambda>a c. 10 * a + digit_val c) 0 (str_nat (n div 10)) = int (n div 10)"
      by simp
    with False show ?thesis
      by (subst str_nat.simps) (simp add: digit_val_digit_char zdiv_int zmod_int)
  qed
qed

lemma py_int_str_nat: "py_int (str_nat n) = Inr (int n)"
  by (simp add: py_int_def str_nat_digits str_nat_not_Nil digits_val_str_nat)

lemma py_int_str: "0 \<le> i \<Longrightarrow> py_int (str i) = Inr i"
  by (simp add: str_def py_int_str_nat)

lemma is_digit_not_dot: "is_digit c \<Longrightarrow> c \<noteq> CHR ''.''"
  by (auto simp: is_digit_def)

lemma split_no_sep: "sep \<notin> set a \<Longrightarrow> split sep a = [a]"
  by (induction a) auto

lemma split_append_sep: "sep \<notin> set a \<Longrightarrow> split sep (a @ sep # b) = a # split sep b"
  by (induction a) auto

lemma str_no_dot: "0 \<le> i \<Longrightarrow> CHR ''.'' \<notin> set (str i)"
  using str_nat_digits [of "nat i"] by (auto simp: str_def list_all_iff dest: is_digit_not_dot)

lemma parse3_render:
  assumes "0 \<le> a" "0 \<le> b" "0 \<le> c"
  shows "parse3 (render [a, b, c]) = Inr (a, b, c)"
  using assms
  by (simp add: parse3_def render_def split_append_sep split_no_sep str_no_dot py_int_str)

lemma digit_val_nonneg:
  assumes "is_digit c"
  shows "0 \<le> digit_val c"
proof -
  from assms have "48 \<le> (of_char c :: nat)"
    by (simp add: is_digit_def Let_def)
  then have "(48::int) \<le> int (of_char c)"
    by linarith
  then show ?thesis
    unfolding digit_val_def by linarith
qed

lemma foldl_digits_nonneg:
  "list_all is_digit s \<Longrightarrow> 0 \<le> a \<Longrightarrow> 0 \<le> foldl (\<lambda>a c. 10 * a + digit_val c) a s"
  by (induction s arbitrary: a) (auto simp: digit_val_nonneg)

lemma py_int_nonneg: "py_int s = Inr i \<Longrightarrow> 0 \<le> i"
  by (auto simp: py_int_def foldl_digits_nonneg split: if_splits)

lemma unpack3_nonneg: "unpack3 ps = Inr (a, b, c) \<Longrightarrow> 0 \<le> a \<and> 0 \<le> b \<and> 0 \<le> c"
  by (induction ps rule: unpack3.induct)
     (auto split: sum.splits list.splits dest: py_int_nonneg)

lemma parse3_nonneg: "parse3 r = Inr (a, b, c) \<Longrightarrow> 0 \<le> a \<and> 0 \<le> b \<and> 0 \<le> c"
  unfolding parse3_def by (rule unpack3_nonneg)

section \<open>The version rules: tables and errors\<close>

lemmas version_defs =
  find_latest_def drop_trailing_dot_def search_version_def is_verchar_def is_digit_def
  determine_torchvision_def determine_torchtext_def determine_torchaudio_def
  torchvision_exceptions_def torchtext_exceptions_def torchaudio_exceptions_def
  parse3_def py_int_def digit_val_def render_def str_def str_nat.simps digit_char_def
  torchvision_fallback_def torchtext_fallback_def torchaudio_fallback_def Let_def

lemma search_version_run: "s \<noteq> [] \<Longrightarrow> list_all is_verchar s \<Longrightarrow> search_version s = Inr s"
  by (cases s) (auto simp: search_version_def list_all_iff takeWhile_eq_all_conv)

lemma search_version_Inr: "search_version v = Inr r \<Longrightarrow> r \<noteq> [] \<and> list_all is_verchar r"
  unfolding search_version_def Let_def
  by (auto split: if_splits simp: list_all_iff dest: set_takeWhileD)
     (metis (mono_tags, lifting) dropWhile_eq_Nil_conv hd_dropWhile list.collapse takeWhile.simps(2) list.distinct(1))

lemma tv_keys: "map_of torchvision_exceptions r = Some w \<Longrightarrow>
   (r, w) \<in> {(''2.0.1'', ''0.15.2''), (''2.0.0'', ''0.15.1''), (''1.10.2'', ''0.11.3''),
      (''1.10.1'', ''0.11.2''), (''1.10.0'', ''0.11.1''), (''1.8.2'', ''0.9.1'')}"
  by (auto simp: torchvision_exceptions_def split: if_splits)

lemma tt_keys: "map_of torchtext_exceptions r = Some w \<Longrightarrow>
   (r, w) \<in> {(''2.0.1'', ''0.15.2''), (''2.0.0'', ''0.15.1''), (''1.8.2'', ''0.9.1'')}"
  by (auto simp: torchtext_exceptions_def split: if_splits)

lemma ta_keys: "map_of torchaudio_exceptions r = Some w \<Longrightarrow> (r, w) = (''1.8.2'', ''0.9.1'')"
  by (auto simp: torchaudio_exceptions_def split: if_splits)

lemma parse3_keys:
  "parse3 ''2.0.1'' = Inr (2, 0, 1)" "parse3 ''2.0.0'' = Inr (2, 0, 0)"
  "parse3 ''1.10.2'' = Inr (1, 10, 2)" "parse3 ''1.10.1'' = Inr (1, 10, 1)"
  "parse3 ''1.10.0'' = Inr (1, 10, 0)" "parse3 ''1.8.2'' = Inr (1, 8, 2)"
  by (simp_all add: parse3_def py_int_def is_digit_def digit_val_def)

lemma tv_key_major:
  assumes "map_of torchvision_exceptions r = Some w" "parse3 r = Inr (ma, mi, pa)"
  shows "ma = 1 \<or> (ma = 2 \<and> mi = 0)"
  using tv_keys [OF assms(1)] assms(2) by (auto simp: parse3_keys)

lemma tt_key_major:
  assumes "map_of torchtext_exceptions r = Some w" "parse3 r = Inr (ma, mi, pa)"
  shows "ma = 1 \<or> (ma = 2 \<and> mi = 0)"
  using tt_keys [OF assms(1)] assms(2) by (auto simp: parse3_keys)

lemma ta_key_major:
  assumes "map_of torchaudio_exceptions r = Some w" "parse3 r = Inr (ma, mi, pa)"
  shows "ma = 1"
  using ta_keys [OF assms(1)] assms(2) by (auto simp: parse3_keys)

lemma find_latest_2_4_1: "find_latest ''2.4.1'' = Inr [(''torch'', ''2.4.1''), (''torchvision'', ''0.19.1''), (''torchtext'', ''0.18.0''), (''torchaudio'', ''2.4.1'')]"
  by (simp add: version_defs)

text \<open>
  C7, as the claim states it, fails: the \<open>torchvision\<close> table does not consist of five pins
  that all cover 2.0.x and 1.10.x releases.
\<close>

theorem torchvision_exceptions_not_five: "\<not> five_early_pins torchvision_exceptions"
  by (simp add: five_early_pins_def torchvision_exceptions_def)

text \<open>
  C7, amended: the \<open>torchvision\<close> table has six pins with distinct keys. Five of them cover
  the releases 2.0.1, 2.0.0, 1.10.2, 1.10.1 and 1.10.0; the sixth pins 1.8.2 to 0.9.1, where
  the arithmetic rule would give 0.9.2.
\<close>

theorem torchvision_exceptions_six_pins:
  "length torchvision_exceptions = 6
   \<and> distinct (map fst torchvision_exceptions)
   \<and> map fst (filter (\<lambda>(k, v). covers_2_0_or_1_10 k) torchvision_exceptions)
       = [''2.0.1'', ''2.0.0'', ''1.10.2'', ''1.10.1'', ''1.10.0'']
   \<and> filter (\<lambda>(k, v). \<not> covers_2_0_or_1_10 k) torchvision_exceptions = [(''1.8.2'', ''0.9.1'')]
   \<and> determine_torchvision ''1.8.2'' = Inr ''0.9.1''
   \<and> torchvision_fallback ''1.8.2'' (1, 8, 2) = Inr ''0.9.2''"
  by (simp add: version_defs covers_2_0_or_1_10_def)

text \<open>
  C2: a version that is a key of a companion's exception table is resolved to the entry of
  the table, by the companion's rule and by \<open>find_latest\<close>, and not by the arithmetic:
  1.8.2 gives 0.9.1 for the three companions, 2.0.1 gives 0.15.2 for \<open>torchtext\<close> and
  \<open>torchvision\<close>, where the arithmetic rule would give 0.15.1.
\<close>

theorem exception_table_first:
  "(\<forall>v w. map_of torchaudio_exceptions v = Some w \<longrightarrow>
      determine_torchaudio v = Inr w \<and>
      (\<exists>opts. find_latest v = Inr opts \<and> map_of opts ''torchaudio'' = Some w))
   \<and> (\<forall>v w. map_of torchtext_exceptions v = Some w \<longrightarrow>
      determine_torchtext v = Inr w \<and>
      (\<exists>opts. find_latest v = Inr opts \<and> map_of opts ''torchtext'' = Some w))
   \<and> (\<forall>v w. map_of torchvision_exceptions v = Some w \<longrightarrow>
      determine_torchvision v = Inr w \<and>
      (\<exists>opts. find_latest v = Inr opts \<and> map_of opts ''torchvision'' = Some w))
   \<and> find_latest ''1.8.2'' = Inr [(''torch'', ''1.8.2''), (''torchvision'', ''0.9.1''),
        (''torchtext'', ''0.9.1''), (''torchaudio'', ''0.9.1'')]
   \<and> find_latest ''2.0.1'' = Inr [(''torch'', ''2.0.1''), (''torchvision'', ''0.15.2''),
        (''torchtext'', ''0.15.2''), (''torchaudio'', ''2.0.1'')]
   \<and> torchtext_fallback ''2.0.1'' (2, 0, 1) = Inr ''0.15.1''
   \<and> torchvision_fallback ''2.0.1'' (2, 0, 1) = Inr ''0.15.1''"
proof (intro conjI allI impI)
  fix v w assume "map_of torchaudio_exceptions v = Some w"
  from ta_keys [OF this] show "determine_torchaudio v = Inr w"
    by auto (simp_all add: version_defs)
  from ta_keys [OF \<open>map_of torchaudio_exceptions v = Some w\<close>]
  show "\<exists>opts. find_latest v = Inr opts \<and> map_of opts ''torchaudio'' = Some w"
    by auto (simp_all add: version_defs)
next
  fix v w assume a: "map_of torchtext_exceptions v = Some w"
  from tt_keys [OF a] show "determine_torchtext v = Inr w"
    by auto (simp_all add: version_defs)
  from tt_keys [OF a]
  show "\<exists>opts. find_latest v = Inr opts \<and> map_of opts ''torchtext'' = Some w"
    by auto (simp_all add: version_defs)
next
  fix v w assume a: "map_of torchvision_exceptions v = Some w"
  from tv_keys [OF a] show "determine_torchvision v = Inr w"
    by auto (simp_all add: version_defs)
  from tv_keys [OF a]
  show "\<exists>opts. find_latest v = Inr opts \<and> map_of opts ''torchvision'' = Some w"
    by auto (simp_all add: version_defs)
qed (simp_all add: version_defs)

theorem exception_table_first_witness:
  "map_of torchvision_exceptions ''1.10.0'' = Some ''0.11.1''
   \<and> determine_torchvision ''1.10.0'' = Inr ''0.11.1''
   \<and> map_of torchtext_exceptions ''2.0.1'' = Some ''0.15.2''
   \<and> determine_torchtext ''2.0.1'' = Inr ''0.15.2''
   \<and> map_of torchaudio_exceptions ''1.8.2'' = Some ''0.9.1''
   \<and> determine_torchaudio ''1.8.2'' = Inr ''0.9.1''"
proof -
  have a: "map_of torchvision_exceptions ''1.10.0'' = Some ''0.11.1''"
    by (simp add: torchvision_exceptions_def)
  have b: "map_of torchtext_exceptions ''2.0.1'' = Some ''0.15.2''"
    by (simp add: torchtext_exceptions_def)
  have c: "map_of torchaudio_exceptions ''1.8.2'' = Some ''0.9.1''"
    by (simp add: torchaudio_exceptions_def)
  from exception_table_first a b c show ?thesis by blast
qed

lemma tables_None_other_major:
  assumes "parse3 r = Inr (ma, mi, pa)" "ma \<noteq> 1" "ma \<noteq> 2 \<or> mi \<noteq> 0"
  shows "map_of torchvision_exceptions r = None" "map_of torchtext_exceptions r = None"
    "map_of torchaudio_exceptions r = None"
proof -
  show "map_of torchvision_exceptions r = None"
    using tv_key_major [of r _ ma mi pa] assms by (cases "map_of torchvision_exceptions r") auto
  show "map_of torchtext_exceptions r = None"
    using tt_key_major [of r _ ma mi pa] assms by (cases "map_of torchtext_exceptions r") auto
  show "map_of torchaudio_exceptions r = None"
    using ta_key_major [of r _ ma mi pa] assms by (cases "map_of torchaudio_exceptions r") auto
qed

text \<open>
  C6: for a version whose run parses into three integers with a major version other than
  1 and 2 (such a run is in no exception table), the rules of \<open>torchtext\<close> and of
  \<open>torchvision\<close> raise the \<open>ValueError\<close> "Invalid torch version: ..." and the message
  contains the version string the rule was given.
\<close>

theorem unsupported_major_raises:
  assumes "search_version v = Inr r" and "parse3 r = Inr (ma, mi, pa)" and "ma \<noteq> 1" and "ma \<noteq> 2"
  shows "determine_torchtext v = Inl (InvalidTorchVersion v)
    \<and> determine_torchvision v = Inl (InvalidTorchVersion v)
    \<and> is_InvalidVersionError (InvalidTorchVersion v)
    \<and> sublist v (message (InvalidTorchVersion v))"
proof -
  have "sublist v (message (InvalidTorchVersion v))"
    unfolding message.simps by (rule sublist_append_leftI)
  with assms tables_None_other_major [of r ma mi pa] show ?thesis
    by (simp add: determine_torchtext_def determine_torchvision_def torchtext_fallback_def
        torchvision_fallback_def)
qed

theorem unsupported_major_raises_witness:
  "determine_torchtext ''3.0.0'' = Inl (InvalidTorchVersion ''3.0.0'')
    \<and> determine_torchvision ''3.0.0'' = Inl (InvalidTorchVersion ''3.0.0'')
    \<and> message (InvalidTorchVersion ''3.0.0'') = ''Invalid torch version: 3.0.0''
    \<and> find_latest ''3.0.0'' = Inl (InvalidTorchVersion ''3.0.0'')"
proof -
  have a: "search_version ''3.0.0'' = Inr ''3.0.0''"
    by (simp add: search_version_def is_verchar_def is_digit_def)
  have b: "parse3 ''3.0.0'' = Inr (3, 0, 0)"
    by (simp add: parse3_def py_int_def is_digit_def digit_val_def)
  have c: "find_latest ''3.0.0'' = Inl (InvalidTorchVersion ''3.0.0'')"
    by (simp add: version_defs)
  from unsupported_major_raises [OF a b] c show ?thesis by simp
qed

text \<open>
  C1: \<open>find_latest\<close> maps 2.4.1 to \<open>torchaudio\<close> 2.4.1, \<open>torchtext\<close> 0.18.0 and
  \<open>torchvision\<close> 0.19.1. For every version whose run parses into (2, minor, patch) with
  minor at least 3, the run is in no exception table, \<open>torchtext\<close> is 0.18.0 whatever the
  minor and the patch, \<open>torchvision\<close> is (0, minor + 15, patch) and \<open>torchaudio\<close> is the
  same version (2, minor, patch): the strings returned are the decimal renderings of these
  triples and parse back to them, and the \<open>torchaudio\<close> string is the run itself when the run
  is written without leading zeros.
\<close>

theorem resolve_2_4_1_and_plateau:
  "find_latest ''2.4.1'' = Inr [(''torch'', ''2.4.1''), (''torchvision'', ''0.19.1''),
      (''torchtext'', ''0.18.0''), (''torchaudio'', ''2.4.1'')]
   \<and> (\<forall>v r mi pa. search_version v = Inr r \<and> parse3 r = Inr (2, mi, pa) \<and> 3 \<le> mi \<longrightarrow>
         map_of torchtext_exceptions r = None
       \<and> map_of torchvision_exceptions r = None
       \<and> map_of torchaudio_exceptions r = None
       \<and> determine_torchtext v = Inr ''0.18.0''
       \<and> determine_torchvision v = Inr (render [0, mi + 15, pa])
       \<and> determine_torchaudio v = Inr (render [2, mi, pa])
       \<and> (r = render [2, mi, pa] \<longrightarrow> determine_torchaudio v = Inr r)
       \<and> parse3 (render [2, mi, pa]) = Inr (2, mi, pa)
       \<and> parse3 (render [0, mi + 15, pa]) = Inr (0, mi + 15, pa))"
proof (intro conjI allI impI)
  show "find_latest ''2.4.1'' = Inr [(''torch'', ''2.4.1''), (''torchvision'', ''0.19.1''),
      (''torchtext'', ''0.18.0''), (''torchaudio'', ''2.4.1'')]"
    by (simp add: version_defs)
next
  fix v r mi pa
  assume h: "search_version v = Inr r \<and> parse3 r = Inr (2, mi, pa) \<and> 3 \<le> mi"
  then have p: "parse3 r = Inr (2, mi, pa)" and m: "3 \<le> mi" and s: "search_version v = Inr r"
    by simp_all
  from tables_None_other_major [OF p] m
  show tt: "map_of torchtext_exceptions r = None" and tv: "map_of torchvision_exceptions r = None"
    and ta: "map_of torchaudio_exceptions r = None"
    by simp_all
  from parse3_nonneg [OF p] have nn: "0 \<le> mi" "0 \<le> pa" by simp_all
  show "determine_torchtext v = Inr ''0.18.0''"
    using s p m tt
    by (simp add: determine_torchtext_def torchtext_fallback_def render_def str_def
        str_nat.simps digit_char_def)
  show "determine_torchvision v = Inr (render [0, mi + 15, pa])"
    using s p tv by (simp add: determine_torchvision_def torchvision_fallback_def)
  show au: "determine_torchaudio v = Inr (render [2, mi, pa])"
    using s p ta by (simp add: determine_torchaudio_def torchaudio_fallback_def)
  show "determine_torchaudio v = Inr r" if "r = render [2, mi, pa]"
    using au that by simp
  show "parse3 (render [2, mi, pa]) = Inr (2, mi, pa)"
    using nn by (simp add: parse3_render)
  show "parse3 (render [0, mi + 15, pa]) = Inr (0, mi + 15, pa)"
    using nn by (simp add: parse3_render)
qed

theorem resolve_2_4_1_and_plateau_witness:
  "search_version ''2.4.1rc1'' = Inr ''2.4.1'' \<and> parse3 ''2.4.1'' = Inr (2, 4, 1)
   \<and> determine_torchtext ''2.4.1rc1'' = Inr ''0.18.0''
   \<and> determine_torchvision ''2.4.1rc1'' = Inr ''0.19.1''
   \<and> determine_torchaudio ''2.4.1rc1'' = Inr ''2.4.1''"
proof -
  have a: "search_version ''2.4.1rc1'' = Inr ''2.4.1''"
    by (simp add: search_version_def is_verchar_def is_digit_def)
  have b: "parse3 ''2.4.1'' = Inr (2, 4, 1)"
    by (simp add: parse3_def py_int_def is_digit_def digit_val_def)
  have c: "render [0, 19, 1] = ''0.19.1''" "render [2, 4, 1] = ''2.4.1''"
    by (simp_all add: render_def str_def str_nat.simps digit_char_def)
  have d: "search_version ''2.4.1rc1'' = Inr ''2.4.1'' \<and> parse3 ''2.4.1'' = Inr (2, 4, 1) \<and> (3::int) \<le> 4"
    using a b by simp
  from resolve_2_4_1_and_plateau [THEN conjunct2, rule_format, OF d] a b c
  show ?thesis by simp
qed

lemma py_int_Inl: "py_int a = Inl e \<Longrightarrow> is_ParseError e"
  by (auto simp: py_int_def split: if_splits)

lemma py_int_Inr: "py_int a = Inr x \<Longrightarrow> is_integer a"
  by (auto simp: py_int_def is_integer_def split: if_splits)

lemma unpack3_Inl: "unpack3 ps = Inl e \<Longrightarrow> is_ParseError e"
  by (induction ps rule: unpack3.induct)
     (auto split: sum.splits list.splits dest: py_int_Inl)

lemma unpack3_Inr:
  "unpack3 ps = Inr t \<Longrightarrow> \<exists>a b c. ps = [a, b, c] \<and> is_integer a \<and> is_integer b \<and> is_integer c"
  by (induction ps rule: unpack3.induct)
     (auto split: sum.splits list.splits dest: py_int_Inr)

lemma parse3_Inl: "parse3 s = Inl e \<Longrightarrow> is_ParseError e"
  unfolding parse3_def by (rule unpack3_Inl)

lemma parse3_Inr: "parse3 s = Inr t \<Longrightarrow> three_integer_components s"
  unfolding parse3_def three_integer_components_def by (drule unpack3_Inr) auto

lemma parse3_total: "three_integer_components s \<Longrightarrow> \<exists>t. parse3 s = Inr t"
  unfolding parse3_def three_integer_components_def
  by (auto simp: py_int_def is_integer_def split: list.splits)

lemma tv_key_components: "map_of torchvision_exceptions r = Some w \<Longrightarrow> three_integer_components r"
  by (drule tv_keys) (auto simp: three_integer_components_def is_integer_def is_digit_def)

lemma determine_torchvision_not_three:
  assumes "search_version s = Inr r" "\<not> three_integer_components r"
  shows "\<exists>e. determine_torchvision s = Inl e \<and> is_ParseError e"
proof -
  from assms(2) have t: "map_of torchvision_exceptions r = None"
    using tv_key_components [of r] by (cases "map_of torchvision_exceptions r") auto
  from assms(2) obtain e where e: "parse3 r = Inl e"
    using parse3_Inr [of r] by (cases "parse3 r") auto
  with assms(1) t parse3_Inl [OF e] show ?thesis
    by (simp add: determine_torchvision_def)
qed

lemma search_version_no_run:
  "(\<forall>c \<in> set v. \<not> is_verchar c) \<Longrightarrow> search_version v = Inl AttributeError"
  by (simp add: search_version_def)

lemma drop_trailing_dot_verchars:
  "list_all is_verchar r \<Longrightarrow> list_all is_verchar (drop_trailing_dot r)"
  by (auto simp: drop_trailing_dot_def list_all_iff dest: in_set_butlastD)

text \<open>
  C8: \<open>find_latest\<close> raises a parse error for every string without a dot or digit, and
  for every string whose first run of dots and digits, one trailing dot removed, does not
  split into exactly three integer components.
\<close>

theorem malformed_version_parse_error:
  "((\<forall>c \<in> set v. \<not> is_verchar c) \<longrightarrow>
      find_latest v = Inl AttributeError \<and> is_ParseError AttributeError)
   \<and> (search_version v = Inr r \<and> \<not> three_integer_components (drop_trailing_dot r) \<longrightarrow>
      (\<exists>e. find_latest v = Inl e \<and> is_ParseError e))"
proof (intro conjI impI)
  assume "\<forall>c \<in> set v. \<not> is_verchar c"
  then show "find_latest v = Inl AttributeError"
    by (simp add: find_latest_def search_version_no_run)
next
  show "is_ParseError AttributeError" by simp
next
  assume h: "search_version v = Inr r \<and> \<not> three_integer_components (drop_trailing_dot r)"
  define ver where "ver = drop_trailing_dot r"
  from h search_version_Inr [of v r] have "list_all is_verchar r"
    by simp
  then have vc: "list_all is_verchar ver"
    unfolding ver_def by (rule drop_trailing_dot_verchars)
  have "\<exists>e. determine_torchvision ver = Inl e \<and> is_ParseError e"
  proof (cases "ver = []")
    case True
    then show ?thesis
      by (simp add: determine_torchvision_def search_version_def)
  next
    case False
    with vc have "search_version ver = Inr ver"
      by (simp add: search_version_run)
    with h determine_torchvision_not_three [of ver ver] show ?thesis
      unfolding ver_def by blast
  qed
  with h show "\<exists>e. find_latest v = Inl e \<and> is_ParseError e"
    by (auto simp: find_latest_def ver_def)
qed

theorem malformed_version_parse_error_witness:
  "find_latest ''nightly'' = Inl AttributeError
   \<and> search_version ''1.9'' = Inr ''1.9'' \<and> \<not> three_integer_components (drop_trailing_dot ''1.9'')
   \<and> (\<exists>e. find_latest ''1.9'' = Inl e \<and> is_ParseError e)"
proof -
  have a: "\<forall>c \<in> set ''nightly''. \<not> is_verchar c"
    by (simp add: is_verchar_def is_digit_def)
  have b: "search_version ''1.9'' = Inr ''1.9''"
    by (simp add: search_version_def is_verchar_def is_digit_def)
  have c: "\<not> three_integer_components (drop_trailing_dot ''1.9'')"
    by (simp add: three_integer_components_def drop_trailing_dot_def)
  from malformed_version_parse_error [of "''nightly''" "''1.9''"] a
  have 1: "find_latest ''nightly'' = Inl AttributeError" by blast
  from malformed_version_parse_error [of "''1.9''" "''1.9''"] b c
  have 2: "\<exists>e. find_latest ''1.9'' = Inl e \<and> is_ParseError e" by blast
  from b c 1 2 show ?thesis by blast
qed

lemma find_latest_examples:
  "find_latest ''1.9'' = Inl (UnpackError 2)"
  "find_latest ''1.2.3.4'' = Inl (UnpackError 4)"
  "find_latest ''1..3'' = Inl (IntLiteralError [])"
  "find_latest ''1.9.0.dev20210504'' = Inr [(''torch'', ''1.9.0''), (''torchvision'', ''0.10.0''),
      (''torchtext'', ''0.10.0''), (''torchaudio'', ''0.9.0'')]"
  by (simp_all add: version_defs)

lemma determine_torchaudio_Inl: "determine_torchaudio v = Inl e \<Longrightarrow> is_ParseError e"
  by (auto simp: determine_torchaudio_def search_version_def Let_def
      split: sum.splits option.splits if_splits dest: parse3_Inl)

lemma is_ParseError_not_Invalid: "is_ParseError e \<Longrightarrow> \<not> is_InvalidVersionError e"
  by (cases e) simp_all

text \<open>
  C10: on every version whose run parses into three integers, the rule of \<open>torchaudio\<close>
  returns a version; for a major version other than 1 it is the same (major, minor, patch),
  rendered in decimal, so the run itself when it is written without leading zeros.
  The rule never raises the invalid-version error, so such an error of \<open>find_latest\<close> is
  the error of the \<open>torchvision\<close> or of the \<open>torchtext\<close> rule.
\<close>

theorem torchaudio_total:
  "(search_version v = Inr r \<and> parse3 r = Inr (ma, mi, pa) \<longrightarrow>
      (\<exists>w. determine_torchaudio v = Inr w)
      \<and> (ma \<noteq> 1 \<longrightarrow> determine_torchaudio v = Inr (render [ma, mi, pa])
                    \<and> (r = render [ma, mi, pa] \<longrightarrow> determine_torchaudio v = Inr r)
                    \<and> parse3 (render [ma, mi, pa]) = Inr (ma, mi, pa)))
   \<and> (\<forall>e. determine_torchaudio v = Inl e \<longrightarrow> \<not> is_InvalidVersionError e)
   \<and> (\<forall>e r1. search_version v = Inr r1 \<and> find_latest v = Inl e \<and> is_InvalidVersionError e \<longrightarrow>
         determine_torchvision (drop_trailing_dot r1) = Inl e
         \<or> determine_torchtext (drop_trailing_dot r1) = Inl e)"
proof (intro conjI impI allI)
  assume h: "search_version v = Inr r \<and> parse3 r = Inr (ma, mi, pa)"
  then show "\<exists>w. determine_torchaudio v = Inr w"
    by (cases "map_of torchaudio_exceptions r") (simp_all add: determine_torchaudio_def)
  assume m: "ma \<noteq> 1"
  with h have "map_of torchaudio_exceptions r = None"
    using ta_key_major [of r _ ma mi pa] by (cases "map_of torchaudio_exceptions r") auto
  with h m show au: "determine_torchaudio v = Inr (render [ma, mi, pa])"
    by (simp add: determine_torchaudio_def torchaudio_fallback_def)
  show "determine_torchaudio v = Inr r" if "r = render [ma, mi, pa]"
    using au that by simp
  from h parse3_nonneg [of r ma mi pa] show "parse3 (render [ma, mi, pa]) = Inr (ma, mi, pa)"
    by (simp add: parse3_render)
next
  fix e assume "determine_torchaudio v = Inl e"
  then show "\<not> is_InvalidVersionError e"
    by (intro is_ParseError_not_Invalid determine_torchaudio_Inl)
next
  fix e r1
  assume h: "search_version v = Inr r1 \<and> find_latest v = Inl e \<and> is_InvalidVersionError e"
  show "determine_torchvision (drop_trailing_dot r1) = Inl e
         \<or> determine_torchtext (drop_trailing_dot r1) = Inl e"
  proof (rule ccontr)
    assume n: "\<not> ?thesis"
    with h have "determine_torchaudio (drop_trailing_dot r1) = Inl e"
      by (auto simp: find_latest_def Let_def split: sum.splits)
    from determine_torchaudio_Inl [OF this] h show False
      by (auto dest: is_ParseError_not_Invalid)
  qed
qed

theorem torchaudio_total_witness:
  "search_version ''3.0.0'' = Inr ''3.0.0'' \<and> parse3 ''3.0.0'' = Inr (3, 0, 0)
   \<and> determine_torchaudio ''3.0.0'' = Inr ''3.0.0''
   \<and> find_latest ''3.0.0'' = Inl (InvalidTorchVersion ''3.0.0'')
   \<and> determine_torchvision ''3.0.0'' = Inl (InvalidTorchVersion ''3.0.0'')"
proof -
  have a: "search_version ''3.0.0'' = Inr ''3.0.0''"
    by (simp add: search_version_def is_verchar_def is_digit_def)
  have b: "parse3 ''3.0.0'' = Inr (3, 0, 0)"
    by (simp add: parse3_def py_int_def is_digit_def digit_val_def)
  have c: "render [3, 0, 0] = ''3.0.0''"
    by (simp add: render_def str_def str_nat.simps digit_char_def)
  have d: "find_latest ''3.0.0'' = Inl (InvalidTorchVersion ''3.0.0'')"
    by (simp add: version_defs)
  have f: "drop_trailing_dot ''3.0.0'' = ''3.0.0''"
    by (simp add: drop_trailing_dot_def)
  from torchaudio_total [of "''3.0.0''" "''3.0.0''" 3 0 0] a b c
  have 1: "determine_torchaudio ''3.0.0'' = Inr ''3.0.0''" by simp
  from torchaudio_total [of "''3.0.0''" "''3.0.0''" 3 0 0, THEN conjunct2, THEN conjunct2,
      rule_format, of "''3.0.0''" "InvalidTorchVersion ''3.0.0''"] a d f
  have 2: "determine_torchvision ''3.0.0'' = Inl (InvalidTorchVersion ''3.0.0'')
     \<or> determine_torchtext ''3.0.0'' = Inl (InvalidTorchVersion ''3.0.0'')" by simp
  have 3: "determine_torchvision ''3.0.0'' = Inl (InvalidTorchVersion ''3.0.0'')"
    by (simp add: version_defs)
  from a b d 1 2 3 show ?thesis by simp
qed

section \<open>The substitution and the lines\<close>

lemma re_sub_match:
  "lib \<noteq> [] \<Longrightarrow> match_here lib p (c # cs) \<Longrightarrow>
   re_sub lib repl p (c # cs) =
     repl @ re_sub lib repl (Some (last (take (match_len lib (c # cs)) (c # cs))))
              (drop (match_len lib (c # cs)) (c # cs))"
  by (simp add: re_sub.simps(2) Let_def)

lemma re_sub_nomatch:
  "\<not> match_here lib p (c # cs) \<Longrightarrow> re_sub lib repl p (c # cs) = c # re_sub lib repl (Some c) cs"
  by (simp add: re_sub.simps(2))

lemma name_continues_no_lookahead:
  "name_continues lib s 0 \<Longrightarrow> \<not> lookahead (drop (length lib) s)"
  by (auto simp: name_continues_def lookahead_def split: list.splits)

lemma no_occurrence_no_change:
  "(\<forall>p \<in> set [0..<length s]. occurs_at lib s p \<longrightarrow> name_continues lib s p)
    \<Longrightarrow> re_sub lib repl prev s = s"
proof (induction s arbitrary: prev)
  case Nil
  then show ?case by simp
next
  case (Cons c cs)
  have H: "\<And>p. p < Suc (length cs) \<Longrightarrow> occurs_at lib (c # cs) p \<Longrightarrow> name_continues lib (c # cs) p"
    using Cons.prems unfolding set_upt by simp
  have "\<not> match_here lib prev (c # cs)"
  proof
    assume m: "match_here lib prev (c # cs)"
    then have "occurs_at lib (c # cs) 0"
      by (simp add: match_here_def occurs_at_def)
    with H have "name_continues lib (c # cs) 0"
      by simp
    with m show False
      by (auto simp: match_here_def dest: name_continues_no_lookahead)
  qed
  moreover have "\<forall>p \<in> set [0..<length cs]. occurs_at lib cs p \<longrightarrow> name_continues lib cs p"
  proof (intro ballI impI)
    fix p assume p: "p \<in> set [0..<length cs]" and o: "occurs_at lib cs p"
    then have "occurs_at lib (c # cs) (Suc p)"
      by (simp add: occurs_at_def)
    with H p have "name_continues lib (c # cs) (Suc p)"
      by simp
    then show "name_continues lib cs p"
      by (simp add: name_continues_def)
  qed
  ultimately show ?case
    using Cons.IH by (simp add: re_sub_nomatch)
qed

lemma foldl_snoc_map: "foldl (\<lambda>acc x. acc @ [f x]) acc xs = acc @ map f xs"
  by (induction xs arbitrary: acc) simp_all

lemma find_latest_not_Nil: "find_latest v = Inr opts \<Longrightarrow> v \<noteq> []"
  by (auto simp: find_latest_def search_version_def)

text \<open>
  C4: for a version that \<open>find_latest\<close> accepts, \<open>adjust\<close> returns as many lines as it was
  given, and the line at each position is \<open>adjust_line\<close> of the input line at that position:
  nothing is reordered, inserted or deleted.
\<close>

theorem adjust_keeps_lines:
  assumes "find_latest v = Inr options"
  shows "\<exists>out. adjust installed requires (Some v) = Inr out
     \<and> length out = length requires
     \<and> (\<forall>i \<in> set [0..<length requires]. out ! i = adjust_line options (requires ! i))"
  using assms find_latest_not_Nil [OF assms]
  by (simp add: adjust_def foldl_snoc_map)

lemma opts_2_1_0: "find_latest ''2.1.0'' = Inr [(''torch'', ''2.1.0''), (''torchvision'', ''0.16.0''),
      (''torchtext'', ''0.16.0''), (''torchaudio'', ''2.1.0'')]"
  by (simp add: version_defs)

lemmas rewrite_defs = adjust_line_def substitute_def replacement_def strip_def rstrip_def split1_def
  is_space_def re_sub.simps(2) match_here_def match_len_def word_boundary_def lookahead_def
  is_word_def Let_def

theorem adjust_keeps_lines_witness:
  "find_latest ''2.1.0'' = Inr [(''torch'', ''2.1.0''), (''torchvision'', ''0.16.0''),
      (''torchtext'', ''0.16.0''), (''torchaudio'', ''2.1.0'')]
   \<and> (\<exists>out. adjust None [''torch>=1.9.0'', ''numpy  # any''] (Some ''2.1.0'') = Inr out
        \<and> length out = 2 \<and> out ! 0 = ''torch==2.1.0'' \<and> out ! 1 = ''numpy  # any'')"
proof -
  let ?o = "[(''torch'', ''2.1.0''), (''torchvision'', ''0.16.0''),
      (''torchtext'', ''0.16.0''), (''torchaudio'', ''2.1.0'')]"
  have a: "adjust_line ?o ''torch>=1.9.0'' = ''torch==2.1.0''"
    by (simp add: rewrite_defs)
  have b: "adjust_line ?o ''numpy  # any'' = ''numpy  # any''"
    by (simp add: rewrite_defs)
  from adjust_keeps_lines [OF opts_2_1_0, of None "[''torch>=1.9.0'', ''numpy  # any'']"]
  obtain out where o: "adjust None [''torch>=1.9.0'', ''numpy  # any''] (Some ''2.1.0'') = Inr out"
    "length out = 2" "out ! 0 = adjust_line ?o ''torch>=1.9.0''"
    "out ! 1 = adjust_line ?o ''numpy  # any''"
    by (auto simp: upt_rec)
  with a b opts_2_1_0 show ?thesis by simp
qed

subsection \<open>The substitution works line by line\<close>

lemma not_word_chars [simp]:
  "\<not> is_word LF" "\<not> is_word CHR ''=''" "\<not> is_word CHR ''#''" "\<not> is_word CHR ''.''"
  by (simp_all add: is_word_def)

lemma is_name_LF: "is_name lib \<Longrightarrow> LF \<notin> set lib"
  by (auto simp: is_name_def list_all_iff)

lemma is_name_eq: "is_name lib \<Longrightarrow> CHR ''='' \<notin> set lib"
  by (auto simp: is_name_def list_all_iff)

lemma is_name_hd_word: "is_name lib \<Longrightarrow> is_word (hd lib)"
  by (cases lib) (auto simp: is_name_def)

lemma match_here_Nil: "lib \<noteq> [] \<Longrightarrow> \<not> match_here lib p []"
  by (auto simp: match_here_def)

lemma match_here_hd: "lib \<noteq> [] \<Longrightarrow> match_here lib p s \<Longrightarrow> s \<noteq> [] \<and> hd s = hd lib"
  by (cases s; cases lib) (auto simp: match_here_def)

lemma match_here_after_word: "is_name lib \<Longrightarrow> is_word c \<Longrightarrow> \<not> match_here lib (Some c) s"
proof
  assume n: "is_name lib" and w: "is_word c" and m: "match_here lib (Some c) s"
  from n have "lib \<noteq> []" by (simp add: is_name_def)
  from match_here_hd [OF this m] is_name_hd_word [OF n] have "s \<noteq> []" "is_word (hd s)"
    by simp_all
  with m w show False
    by (cases s) (auto simp: match_here_def word_boundary_def)
qed

lemma lookahead_append_LF: "lookahead (x @ LF # r) = lookahead x"
  by (cases x) (simp_all add: lookahead_def)

lemma word_boundary_append_LF: "word_boundary p (x @ LF # r) = word_boundary p x"
  by (cases x) (simp_all add: word_boundary_def)

lemma take_eq_length: "take (length lib) m = lib \<Longrightarrow> length lib \<le> length m"
proof -
  assume "take (length lib) m = lib"
  then have "length (take (length lib) m) = length lib"
    by simp
  then show ?thesis
    by simp
qed

lemma takeWhile_not_LF: "LF \<notin> set s \<Longrightarrow> takeWhile (\<lambda>c. c \<noteq> LF) s = s"
  by (rule takeWhile_eq_all_conv [THEN iffD2]) auto

lemma take_append_LF:
  assumes "LF \<notin> set lib"
  shows "(take (length lib) (m @ LF # r) = lib) = (take (length lib) m = lib)"
proof (cases "length lib \<le> length m")
  case True
  then show ?thesis by simp
next
  case False
  then have "LF \<in> set (take (length lib) (m @ LF # r))"
    by (auto simp: take_Cons')
  with assms have a: "take (length lib) (m @ LF # r) \<noteq> lib"
    by metis
  from False have b: "take (length lib) m \<noteq> lib"
    using take_eq_length [of lib m] by blast
  from a b show ?thesis
    by blast
qed

lemma match_here_append_LF:
  assumes "is_name lib"
  shows "match_here lib p (m @ LF # r) = match_here lib p m"
proof (cases "take (length lib) m = lib")
  case True
  then have "length lib \<le> length m"
    by (rule take_eq_length)
  with True show ?thesis
    by (simp add: match_here_def word_boundary_append_LF lookahead_append_LF)
next
  case False
  then show ?thesis
    using take_append_LF [OF is_name_LF [OF assms], of m r] by (simp add: match_here_def)
qed

lemma re_sub_LF:
  assumes "is_name lib"
  shows "re_sub lib repl p (LF # r) = LF # re_sub lib repl (Some LF) r"
proof -
  have "\<not> match_here lib p (LF # r)"
  proof
    assume "match_here lib p (LF # r)"
    with assms match_here_hd [of lib p "LF # r"] have "hd lib = LF"
      by (simp add: is_name_def)
    with is_name_hd_word [OF assms] have "is_word LF"
      by simp
    then show False
      by simp
  qed
  then show ?thesis
    by (rule re_sub_nomatch)
qed

lemma match_len_line:
  assumes "LF \<notin> set s" "length lib \<le> length s"
  shows "match_len lib s = length s"
proof -
  from assms(1) have "LF \<notin> set (drop (length lib) s)"
    by (auto dest: in_set_dropD)
  then show ?thesis
    using assms(2) by (simp add: match_len_def takeWhile_not_LF)
qed

lemma match_here_length: "match_here lib p s \<Longrightarrow> length lib \<le> length s"
  by (simp add: match_here_def take_eq_length)

lemma re_sub_line_match:
  assumes "is_name lib" "LF \<notin> set s" "match_here lib p s"
  shows "re_sub lib repl p s = repl"
proof -
  from assms have "lib \<noteq> []" by (simp add: is_name_def)
  with assms(3) obtain c cs where s: "s = c # cs"
    using match_here_Nil by (cases s) auto
  from match_len_line [OF assms(2) match_here_length [OF assms(3)]]
  show ?thesis
    using assms(3) \<open>lib \<noteq> []\<close> unfolding s by (simp add: re_sub_match)
qed

lemma match_len_append_LF:
  assumes "LF \<notin> set m" "length lib \<le> length m"
  shows "match_len lib (m @ LF # r) = length m"
proof -
  from assms(1) have "LF \<notin> set (drop (length lib) m)"
    by (auto dest: in_set_dropD)
  then have "takeWhile (\<lambda>c. c \<noteq> LF) (drop (length lib) m @ LF # r) = drop (length lib) m"
    by (simp add: takeWhile_tail takeWhile_not_LF)
  with assms(2) show ?thesis
    by (simp add: match_len_def)
qed

lemma re_sub_append_LF:
  assumes "is_name lib" "LF \<notin> set m"
  shows "re_sub lib repl p (m @ LF # r) = re_sub lib repl p m @ LF # re_sub lib repl (Some LF) r"
  using assms(2)
proof (induction m arbitrary: p)
  case Nil
  then show ?case by (simp add: re_sub_LF [OF assms(1)])
next
  case (Cons c cs)
  show ?case
  proof (cases "match_here lib p (c # cs)")
    case True
    from assms(1) have ne: "lib \<noteq> []" by (simp add: is_name_def)
    from True have m2: "match_here lib p (c # cs @ LF # r)"
      using match_here_append_LF [OF assms(1), of p "c # cs" r] by simp
    have len: "match_len lib (c # cs @ LF # r) = length (c # cs)"
      using match_len_append_LF [of "c # cs" lib r] Cons.prems match_here_length [OF True] by simp
    have "re_sub lib repl p (c # cs @ LF # r) = repl @ LF # re_sub lib repl (Some LF) r"
      by (subst re_sub_match [OF ne m2]) (simp add: len re_sub_LF [OF assms(1)])
    moreover have "re_sub lib repl p (c # cs) = repl"
      using re_sub_line_match [OF assms(1) _ True] Cons.prems by simp
    ultimately show ?thesis by simp
  next
    case False
    then have "\<not> match_here lib p (c # cs @ LF # r)"
      using match_here_append_LF [OF assms(1), of p "c # cs" r] by simp
    with False Cons show ?thesis
      by (simp add: re_sub_nomatch)
  qed
qed

subsection \<open>One line: where a match can be\<close>

lemma re_sub_line_shape:
  assumes "is_name lib" "LF \<notin> set s"
  shows "re_sub lib repl p s = s
     \<or> (\<exists>a t. s = a @ lib @ t \<and> lookahead t \<and> re_sub lib repl p s = a @ repl)"
  using assms(2)
proof (induction s arbitrary: p)
  case Nil
  then show ?case by simp
next
  case (Cons c cs)
  show ?case
  proof (cases "match_here lib p (c # cs)")
    case True
    then have "c # cs = [] @ lib @ drop (length lib) (c # cs)" "lookahead (drop (length lib) (c # cs))"
      by (simp_all add: match_here_def) (metis append_take_drop_id)
    moreover have "re_sub lib repl p (c # cs) = [] @ repl"
      using re_sub_line_match [OF assms(1) Cons.prems True] by simp
    ultimately show ?thesis by blast
  next
    case False
    from Cons have "re_sub lib repl (Some c) cs = cs
       \<or> (\<exists>a t. cs = a @ lib @ t \<and> lookahead t \<and> re_sub lib repl (Some c) cs = a @ repl)"
      by simp
    then show ?thesis
    proof
      assume "re_sub lib repl (Some c) cs = cs"
      with False show ?thesis by (simp add: re_sub_nomatch)
    next
      assume "\<exists>a t. cs = a @ lib @ t \<and> lookahead t \<and> re_sub lib repl (Some c) cs = a @ repl"
      then obtain a t where "cs = a @ lib @ t" "lookahead t" "re_sub lib repl (Some c) cs = a @ repl"
        by blast
      with False have "c # cs = (c # a) @ lib @ t \<and> lookahead t
          \<and> re_sub lib repl p (c # cs) = (c # a) @ repl"
        by (simp add: re_sub_nomatch)
      then show ?thesis by blast
    qed
  qed
qed

lemma match_here_within:
  assumes "match_here lib p (X @ c # u)" "c \<notin> set lib"
  shows "length lib \<le> length X"
proof (rule ccontr)
  assume "\<not> length lib \<le> length X"
  then have "c \<in> set (take (length lib) (X @ c # u))"
    by (auto simp: take_Cons')
  with assms show False
    by (simp add: match_here_def)
qed

lemma match_here_change_tail:
  assumes "match_here lib p (X @ u)" "length lib \<le> length X" "X \<noteq> []" "lookahead t"
  shows "match_here lib p (X @ t)"
proof -
  from assms(3) have "word_boundary p (X @ t) = word_boundary p (X @ u)"
    by (cases X) (simp_all add: word_boundary_def)
  moreover have "lookahead (drop (length lib) X @ u) \<Longrightarrow> lookahead (drop (length lib) X @ t)"
    using assms(4) by (cases "drop (length lib) X") (simp_all add: lookahead_def)
  ultimately show ?thesis
    using assms(1,2) by (simp add: match_here_def)
qed

lemma no_new_match:
  assumes "is_name lj" "is_name lk" "LF \<notin> set cs" "\<not> match_here lj p (c # cs)"
  shows "\<not> match_here lj p (c # re_sub lk (pin lk vk) (Some c) cs)"
proof
  assume m: "match_here lj p (c # re_sub lk (pin lk vk) (Some c) cs)"
  from re_sub_line_shape [OF assms(2,3), of "pin lk vk" "Some c"] show False
  proof
    assume "re_sub lk (pin lk vk) (Some c) cs = cs"
    with m assms(4) show False by simp
  next
    assume "\<exists>a t. cs = a @ lk @ t \<and> lookahead t \<and> re_sub lk (pin lk vk) (Some c) cs = a @ pin lk vk"
    then obtain a t where cs: "cs = a @ lk @ t" and t: "lookahead t"
      and r: "re_sub lk (pin lk vk) (Some c) cs = a @ pin lk vk"
      by blast
    from m r have m': "match_here lj p ((c # a @ lk) @ CHR ''='' # CHR ''='' # vk)"
      by (simp add: pin_def)
    from match_here_within [OF m'] is_name_eq [OF assms(1)]
    have "length lj \<le> length (c # a @ lk)"
      by blast
    from match_here_change_tail [OF m' this _ t] have "match_here lj p (c # cs)"
      by (simp add: cs)
    with assms(4) show False by simp
  qed
qed

lemma re_sub_skip_word_run:
  assumes "is_name lib"
  shows "list_all is_word w \<Longrightarrow> is_word c \<Longrightarrow>
    re_sub lib repl (Some c) (w @ z) = w @ re_sub lib repl (Some (last (c # w))) z"
proof (induction w arbitrary: c)
  case Nil
  then show ?case by simp
next
  case (Cons x xs)
  from Cons.prems have "\<not> match_here lib (Some c) (x # xs @ z)"
    by (intro match_here_after_word [OF assms])
  with Cons show ?case
    by (simp add: re_sub_nomatch)
qed

lemma re_sub_no_head:
  assumes "lib \<noteq> []"
  shows "hd lib \<notin> set z \<Longrightarrow> re_sub lib repl p z = z"
proof (induction z arbitrary: p)
  case Nil
  then show ?case by simp
next
  case (Cons c cs)
  from Cons.prems match_here_hd [OF assms, of p "c # cs"] have "\<not> match_here lib p (c # cs)"
    by auto
  with Cons show ?case
    by (simp add: re_sub_nomatch)
qed

lemma not_verchar_LF: "\<not> is_verchar LF"
  by (simp add: is_verchar_def is_digit_def)

lemma verchar_not_name_head:
  assumes "is_name lib" "list_all is_verchar v"
  shows "hd lib \<notin> set (CHR ''='' # CHR ''='' # v)"
proof
  assume "hd lib \<in> set (CHR ''='' # CHR ''='' # v)"
  then have "hd lib = CHR ''='' \<or> hd lib \<in> set v"
    by simp
  then show False
  proof
    assume "hd lib = CHR ''=''"
    with is_name_hd_word [OF assms(1)] have "is_word CHR ''=''"
      by simp
    then show False
      by simp
  next
    assume "hd lib \<in> set v"
    with assms(2) have "is_verchar (hd lib)"
      by (simp add: list_all_iff)
    then have "hd lib = CHR ''.'' \<or> is_digit (hd lib)"
      by (simp add: is_verchar_def)
    then show False
    proof
      assume "hd lib = CHR ''.''"
      with is_name_hd_word [OF assms(1)] have "is_word CHR ''.''"
        by simp
      then show False
        by simp
    next
      assume "is_digit (hd lib)"
      with assms(1) show False
        by (simp add: is_name_def)
    qed
  qed
qed

lemma pin_no_LF:
  assumes "is_name lib" "list_all is_verchar v"
  shows "LF \<notin> set (pin lib v)"
proof
  assume "LF \<in> set (pin lib v)"
  then have "LF \<in> set lib \<or> LF \<in> set v"
    by (simp add: pin_def)
  then show False
  proof
    assume "LF \<in> set lib"
    with is_name_LF [OF assms(1)] show False
      by simp
  next
    assume "LF \<in> set v"
    with assms(2) have "is_verchar LF"
      by (simp add: list_all_iff)
    with not_verchar_LF show False
      by simp
  qed
qed

lemma re_sub_pin_fixed:
  assumes "is_name lj" "is_name lk" "list_all is_verchar vk" "lj = lk \<longrightarrow> rj = pin lk vk"
  shows "re_sub lj rj p (pin lk vk) = pin lk vk"
proof (cases "match_here lj p (pin lk vk)")
  case True
  then have m: "match_here lj p (lk @ CHR ''='' # CHR ''='' # vk)"
    by (simp add: pin_def)
  from match_here_within [OF m] is_name_eq [OF assms(1)] have le: "length lj \<le> length lk"
    by blast
  have "length lj = length lk"
  proof (rule ccontr)
    assume "length lj \<noteq> length lk"
    with le have "drop (length lj) lk \<noteq> []"
      by simp
    then obtain x xs where d: "drop (length lj) lk = x # xs"
      by (cases "drop (length lj) lk") auto
    then have "x \<in> set lk"
      by (metis in_set_dropD list.set_intros(1))
    with assms(2) have "is_word x"
      by (simp add: is_name_def list_all_iff)
    with m le d show False
      by (simp add: match_here_def lookahead_def)
  qed
  with m have "lj = lk"
    by (simp add: match_here_def)
  with assms(4) re_sub_line_match [OF assms(1) pin_no_LF [OF assms(2,3)] True, of rj]
  show ?thesis by simp
next
  case False
  from assms(2) obtain c w where lk: "lk = c # w" and w: "is_word c" "list_all is_word w"
    by (cases lk) (auto simp: is_name_def)
  from assms(1) have ne: "lj \<noteq> []"
    by (simp add: is_name_def)
  from False have "re_sub lj rj p (pin lk vk)
      = c # re_sub lj rj (Some c) (w @ CHR ''='' # CHR ''='' # vk)"
    by (simp add: pin_def lk re_sub_nomatch)
  also have "\<dots> = c # w @ re_sub lj rj (Some (last (c # w))) (CHR ''='' # CHR ''='' # vk)"
    using re_sub_skip_word_run [OF assms(1) w(2) w(1)] by simp
  also have "\<dots> = c # w @ CHR ''='' # CHR ''='' # vk"
    using re_sub_no_head [OF ne verchar_not_name_head [OF assms(1,3)]] by simp
  finally show ?thesis
    by (simp add: pin_def lk)
qed

subsection \<open>Running a substitution again\<close>

lemma re_sub_line_no_LF:
  assumes "is_name lib" "LF \<notin> set s" "LF \<notin> set repl"
  shows "LF \<notin> set (re_sub lib repl p s)"
  using re_sub_line_shape [OF assms(1,2), of repl p] assms(2,3) by auto

text \<open>On one line, a second run of the same substitution changes nothing.\<close>

lemma re_sub_line_idem:
  assumes "is_name lk" "list_all is_verchar vk"
  shows "LF \<notin> set y \<Longrightarrow>
    re_sub lk (pin lk vk) p (re_sub lk (pin lk vk) p y) = re_sub lk (pin lk vk) p y"
proof (induction y arbitrary: p)
  case Nil
  then show ?case by simp
next
  case (Cons c cs)
  show ?case
  proof (cases "match_here lk p (c # cs)")
    case True
    from re_sub_line_match [OF assms(1) Cons.prems True]
    have "re_sub lk (pin lk vk) p (c # cs) = pin lk vk" .
    then show ?thesis
      by (simp add: re_sub_pin_fixed [OF assms(1) assms(1) assms(2)])
  next
    case False
    from Cons.prems have cs: "LF \<notin> set cs" by simp
    from no_new_match [OF assms(1) assms(1) cs False]
    have "\<not> match_here lk p (c # re_sub lk (pin lk vk) (Some c) cs)" .
    with False Cons.IH [OF cs] show ?thesis
      by (simp add: re_sub_nomatch)
  qed
qed

text \<open>On one line, a string that one substitution leaves alone is still left alone by it
  after another substitution has run.\<close>

lemma re_sub_line_fixed_preserved:
  assumes "is_name lj" "is_name lk" "list_all is_verchar vj" "list_all is_verchar vk"
    and "lj = lk \<longrightarrow> vj = vk"
  shows "LF \<notin> set y \<Longrightarrow> re_sub lj (pin lj vj) p y = y \<Longrightarrow>
    re_sub lj (pin lj vj) p (re_sub lk (pin lk vk) p y) = re_sub lk (pin lk vk) p y"
proof (induction y arbitrary: p)
  case Nil
  then show ?case by simp
next
  case (Cons c cs)
  from assms(5) have eq: "lj = lk \<longrightarrow> pin lj vj = pin lk vk" "lk = lj \<longrightarrow> pin lk vk = pin lj vj"
    by auto
  show ?case
  proof (cases "match_here lk p (c # cs)")
    case True
    from re_sub_line_match [OF assms(2) Cons.prems(1) True]
    have "re_sub lk (pin lk vk) p (c # cs) = pin lk vk" .
    then show ?thesis
      by (simp add: re_sub_pin_fixed [OF assms(1,2,4) eq(1)])
  next
    case nk: False
    show ?thesis
    proof (cases "match_here lj p (c # cs)")
      case True
      from re_sub_line_match [OF assms(1) Cons.prems(1) True] Cons.prems(2)
      have y: "c # cs = pin lj vj" by simp
      have "re_sub lk (pin lk vk) p (c # cs) = c # cs"
        unfolding y by (rule re_sub_pin_fixed [OF assms(2,1,3) eq(2)])
      with Cons.prems(2) show ?thesis by simp
    next
      case False
      from Cons.prems(1) have cs: "LF \<notin> set cs" by simp
      from False Cons.prems(2) have "re_sub lj (pin lj vj) (Some c) cs = cs"
        by (simp add: re_sub_nomatch)
      from Cons.IH [OF cs this]
      have ih: "re_sub lj (pin lj vj) (Some c) (re_sub lk (pin lk vk) (Some c) cs)
                  = re_sub lk (pin lk vk) (Some c) cs" .
      from no_new_match [OF assms(1,2) cs False]
      have "\<not> match_here lj p (c # re_sub lk (pin lk vk) (Some c) cs)" .
      with nk ih show ?thesis
        by (simp add: re_sub_nomatch)
    qed
  qed
qed

text \<open>The same on strings of several lines, by induction on the number of characters.\<close>

lemma append_LF_eq:
  assumes "LF \<notin> set a" "LF \<notin> set b" "a @ LF # x = b @ LF # y"
  shows "a = b \<and> x = y"
  using assms
proof (induction a arbitrary: b)
  case Nil
  then show ?case by (cases b) auto
next
  case (Cons c cs)
  then show ?case by (cases b) auto
qed

lemma split_first_LF: "LF \<in> set y \<Longrightarrow> \<exists>m r. y = m @ LF # r \<and> LF \<notin> set m"
  by (rule split_list_first)

lemma re_sub_idem:
  assumes "is_name lk" "list_all is_verchar vk"
  shows "re_sub lk (pin lk vk) p (re_sub lk (pin lk vk) p y) = re_sub lk (pin lk vk) p y"
proof (induction "length y" arbitrary: y p rule: less_induct)
  case less
  show ?case
  proof (cases "LF \<in> set y")
    case False
    then show ?thesis by (rule re_sub_line_idem [OF assms])
  next
    case True
    then obtain m r where y: "y = m @ LF # r" and m: "LF \<notin> set m"
      using split_first_LF by blast
    let ?f = "re_sub lk (pin lk vk)"
    have 1: "?f p y = ?f p m @ LF # ?f (Some LF) r"
      unfolding y by (rule re_sub_append_LF [OF assms(1) m])
    have 2: "LF \<notin> set (?f p m)"
      by (rule re_sub_line_no_LF [OF assms(1) m pin_no_LF [OF assms]])
    have 3: "?f p (?f p m) = ?f p m"
      by (rule re_sub_line_idem [OF assms m])
    have 4: "?f (Some LF) (?f (Some LF) r) = ?f (Some LF) r"
      by (rule less) (simp add: y)
    show ?thesis
      unfolding 1 by (simp add: re_sub_append_LF [OF assms(1) 2] 3 4)
  qed
qed

lemma re_sub_fixed_preserved:
  assumes "is_name lj" "is_name lk" "list_all is_verchar vj" "list_all is_verchar vk"
    and "lj = lk \<longrightarrow> vj = vk"
  shows "re_sub lj (pin lj vj) p y = y \<Longrightarrow>
    re_sub lj (pin lj vj) p (re_sub lk (pin lk vk) p y) = re_sub lk (pin lk vk) p y"
proof (induction "length y" arbitrary: y p rule: less_induct)
  case less
  let ?f = "re_sub lj (pin lj vj)" and ?g = "re_sub lk (pin lk vk)"
  show ?case
  proof (cases "LF \<in> set y")
    case False
    then show ?thesis
      using less.prems by (intro re_sub_line_fixed_preserved [OF assms]) 
  next
    case True
    then obtain m r where y: "y = m @ LF # r" and m: "LF \<notin> set m"
      using split_first_LF by blast
    have f: "?f p y = ?f p m @ LF # ?f (Some LF) r"
      unfolding y by (rule re_sub_append_LF [OF assms(1) m])
    have fm: "LF \<notin> set (?f p m)"
      by (rule re_sub_line_no_LF [OF assms(1) m pin_no_LF [OF assms(1,3)]])
    from less.prems f have "?f p m @ LF # ?f (Some LF) r = m @ LF # r"
      by (simp add: y)
    from append_LF_eq [OF fm m this] have fx: "?f p m = m" "?f (Some LF) r = r"
      by simp_all
    have g: "?g p y = ?g p m @ LF # ?g (Some LF) r"
      unfolding y by (rule re_sub_append_LF [OF assms(2) m])
    have gm: "LF \<notin> set (?g p m)"
      by (rule re_sub_line_no_LF [OF assms(2) m pin_no_LF [OF assms(2,4)]])
    have 3: "?f p (?g p m) = ?g p m"
      by (rule re_sub_line_fixed_preserved [OF assms m fx(1)])
    have 4: "?f (Some LF) (?g (Some LF) r) = ?g (Some LF) r"
      by (rule less(1) [OF _ fx(2)]) (simp add: y)
    show ?thesis
      unfolding g by (simp add: re_sub_append_LF [OF assms(1) gm] 3 4)
  qed
qed

subsection \<open>The dictionary of \<open>find_latest\<close>\<close>

lemma is_digit_verchar: "is_digit c \<Longrightarrow> is_verchar c"
  by (simp add: is_verchar_def)

lemma str_verchars: "0 \<le> i \<Longrightarrow> list_all is_verchar (str i) \<and> str i \<noteq> []"
  using str_nat_digits [of "nat i"] str_nat_not_Nil [of "nat i"]
  by (simp add: str_def list_all_iff is_digit_verchar)

lemma render3_verchars:
  assumes "0 \<le> a" "0 \<le> b" "0 \<le> c"
  shows "list_all is_verchar (render [a, b, c]) \<and> render [a, b, c] \<noteq> []"
  using str_verchars [OF assms(1)] str_verchars [OF assms(2)] str_verchars [OF assms(3)]
  by (simp add: render_def is_verchar_def)

lemma table_values_verchars:
  "map_of torchvision_exceptions r = Some w \<Longrightarrow> list_all is_verchar w \<and> w \<noteq> []"
  "map_of torchtext_exceptions r = Some w \<Longrightarrow> list_all is_verchar w \<and> w \<noteq> []"
  "map_of torchaudio_exceptions r = Some w \<Longrightarrow> list_all is_verchar w \<and> w \<noteq> []"
  by (auto dest!: tv_keys tt_keys ta_keys simp: is_verchar_def is_digit_def)

lemma determine_torchvision_verchars:
  assumes "determine_torchvision v = Inr w"
  shows "list_all is_verchar w \<and> w \<noteq> []"
proof -
  from assms obtain r where r: "search_version v = Inr r"
    by (cases "search_version v") (auto simp: determine_torchvision_def)
  show ?thesis
  proof (cases "map_of torchvision_exceptions r")
    case (Some x)
    with assms r table_values_verchars(1) [of r x] show ?thesis
      by (simp add: determine_torchvision_def)
  next
    case None
    with assms r obtain a b c where p: "parse3 r = Inr (a, b, c)"
      by (cases "parse3 r") (auto simp: determine_torchvision_def)
    from parse3_nonneg [OF p] have nn: "0 \<le> a" "0 \<le> b" "0 \<le> c"
      by simp_all
    from assms r None p have "w = render [0, b + 1, c] \<or> w = render [0, b + 15, c]"
      by (auto simp: determine_torchvision_def torchvision_fallback_def Let_def split: if_splits)
    with nn render3_verchars [of 0 "b + 1" c] render3_verchars [of 0 "b + 15" c] show ?thesis
      by auto
  qed
qed

lemma determine_torchtext_verchars:
  assumes "determine_torchtext v = Inr w"
  shows "list_all is_verchar w \<and> w \<noteq> []"
proof -
  from assms obtain r where r: "search_version v = Inr r"
    by (cases "search_version v") (auto simp: determine_torchtext_def)
  show ?thesis
  proof (cases "map_of torchtext_exceptions r")
    case (Some x)
    with assms r table_values_verchars(2) [of r x] show ?thesis
      by (simp add: determine_torchtext_def)
  next
    case None
    with assms r obtain a b c where p: "parse3 r = Inr (a, b, c)"
      by (cases "parse3 r") (auto simp: determine_torchtext_def)
    from parse3_nonneg [OF p] have nn: "0 \<le> a" "0 \<le> b" "0 \<le> c"
      by simp_all
    from assms r None p
    have "w = render [0, b + 1, c] \<or> w = render [0, 18, 0] \<or> w = render [0, b + 15, c]"
      by (auto simp: determine_torchtext_def torchtext_fallback_def Let_def split: if_splits)
    with nn render3_verchars [of 0 "b + 1" c] render3_verchars [of 0 "b + 15" c]
      render3_verchars [of 0 18 0] show ?thesis
      by auto
  qed
qed

lemma determine_torchaudio_verchars:
  assumes "determine_torchaudio v = Inr w"
  shows "list_all is_verchar w \<and> w \<noteq> []"
proof -
  from assms obtain r where r: "search_version v = Inr r"
    by (cases "search_version v") (auto simp: determine_torchaudio_def)
  show ?thesis
  proof (cases "map_of torchaudio_exceptions r")
    case (Some x)
    with assms r table_values_verchars(3) [of r x] show ?thesis
      by (simp add: determine_torchaudio_def)
  next
    case None
    with assms r obtain a b c where p: "parse3 r = Inr (a, b, c)"
      by (cases "parse3 r") (auto simp: determine_torchaudio_def)
    from parse3_nonneg [OF p] have nn: "0 \<le> a" "0 \<le> b" "0 \<le> c"
      by simp_all
    from assms r None p have "w = render [0, b, c] \<or> w = render [a, b, c]"
      by (auto simp: determine_torchaudio_def torchaudio_fallback_def Let_def split: if_splits)
    with nn render3_verchars [of 0 b c] render3_verchars [of a b c] show ?thesis
      by auto
  qed
qed

lemma companion_names:
  "is_name ''torch''" "is_name ''torchvision''" "is_name ''torchtext''" "is_name ''torchaudio''"
  by (simp_all add: is_name_def is_word_def is_digit_def)

lemma find_latest_well_formed:
  assumes "find_latest v = Inr options"
  shows "well_formed options"
proof -
  from assms obtain r where r: "search_version v = Inr r"
    by (cases "search_version v") (auto simp: find_latest_def)
  define ver where "ver = drop_trailing_dot r"
  from assms r obtain tv tt ta where d: "determine_torchvision ver = Inr tv"
      "determine_torchtext ver = Inr tt" "determine_torchaudio ver = Inr ta"
    and o: "options = [(''torch'', ver), (''torchvision'', tv), (''torchtext'', tt),
                 (''torchaudio'', ta)]"
    by (auto simp: find_latest_def ver_def Let_def split: sum.splits)
  from search_version_Inr [OF r] have "list_all is_verchar ver"
    unfolding ver_def by (intro drop_trailing_dot_verchars) simp
  moreover from d(1) have "ver \<noteq> []"
    by (auto simp: determine_torchvision_def search_version_def)
  ultimately show ?thesis
    using determine_torchvision_verchars [OF d(1)] determine_torchtext_verchars [OF d(2)]
      determine_torchaudio_verchars [OF d(3)]
    by (simp add: well_formed_def o companion_names)
qed

subsection \<open>Running the loop over the dictionary again\<close>

lemma replacement_pin: "version \<noteq> [] \<Longrightarrow> replacement lib version = pin lib version"
  by (simp add: replacement_def pin_def)

lemma substitute_from_None: "substitute options req = substitute_from None options req"
  by (simp add: substitute_def substitute_from_def)

lemma substitute_from_Nil [simp]: "substitute_from p [] y = y"
  by (simp add: substitute_from_def)

lemma substitute_from_Cons:
  "substitute_from p ((l, v) # ts) y = substitute_from p ts (re_sub l (replacement l v) p y)"
  by (simp add: substitute_from_def)

lemma well_formed_Cons:
  "well_formed ((l, v) # ts) =
     (is_name l \<and> v \<noteq> [] \<and> list_all is_verchar v \<and> l \<notin> fst ` set ts \<and> well_formed ts)"
  by (auto simp: well_formed_def)

lemma well_formed_append_Cons:
  "well_formed (ds @ (l, v) # ts) \<Longrightarrow>
     is_name l \<and> v \<noteq> [] \<and> list_all is_verchar v \<and> l \<notin> fst ` set ds
     \<and> well_formed ((ds @ [(l, v)]) @ ts)"
  by (auto simp: well_formed_def)

lemma well_formed_mem:
  "well_formed ds \<Longrightarrow> (l, v) \<in> set ds \<Longrightarrow> is_name l \<and> v \<noteq> [] \<and> list_all is_verchar v"
  by (auto simp: well_formed_def list_all_iff)

lemma well_formed_appendD: "well_formed (ds @ ts) \<Longrightarrow> well_formed ds"
  by (auto simp: well_formed_def)

text \<open>After the loop over the dictionary, every substitution of the dictionary leaves
  the result as it is.\<close>

lemma substitute_from_fixed:
  "well_formed (ds @ ts) \<Longrightarrow>
   (\<forall>(l, v) \<in> set ds. re_sub l (pin l v) p y = y) \<Longrightarrow>
   (\<forall>(l, v) \<in> set (ds @ ts).
      re_sub l (pin l v) p (substitute_from p ts y) = substitute_from p ts y)"
proof (induction ts arbitrary: ds y)
  case Nil
  then show ?case by simp
next
  case (Cons lv ts)
  obtain l v where lv: "lv = (l, v)" by (cases lv)
  from well_formed_append_Cons [OF Cons.prems(1) [unfolded lv]]
  have n: "is_name l" "v \<noteq> []" "list_all is_verchar v" and fresh: "l \<notin> fst ` set ds"
    and wf: "well_formed ((ds @ [(l, v)]) @ ts)"
    by simp_all
  let ?y = "re_sub l (pin l v) p y"
  have "\<forall>(l', v') \<in> set (ds @ [(l, v)]). re_sub l' (pin l' v') p ?y = ?y"
  proof (safe)
    fix l' v' assume m: "(l', v') \<in> set (ds @ [(l, v)])"
    show "re_sub l' (pin l' v') p ?y = ?y"
    proof (cases "(l', v') \<in> set ds")
      case True
      from well_formed_mem [OF well_formed_appendD [OF Cons.prems(1)] True]
      have n': "is_name l'" "list_all is_verchar v'"
        by simp_all
      from True fresh have "l' \<noteq> l"
        by force
      then have e: "l' = l \<longrightarrow> v' = v"
        by simp
      from True Cons.prems(2) have "re_sub l' (pin l' v') p y = y"
        by auto
      then show ?thesis
        by (rule re_sub_fixed_preserved [OF n'(1) n(1) n'(2) n(3) e])
    next
      case False
      with m have "l' = l" "v' = v"
        by simp_all
      then show ?thesis
        by (simp add: re_sub_idem [OF n(1,3)])
    qed
  qed
  from Cons.IH [OF wf this] show ?case
    by (simp add: lv substitute_from_Cons replacement_pin [OF n(2)])
qed

lemma substitute_from_all_fixed:
  "well_formed ts \<Longrightarrow> (\<forall>(l, v) \<in> set ts. re_sub l (pin l v) p z = z) \<Longrightarrow>
   substitute_from p ts z = z"
proof (induction ts)
  case Nil
  then show ?case by simp
next
  case (Cons lv ts)
  obtain l v where lv: "lv = (l, v)" by (cases lv)
  from Cons.prems(1) have "v \<noteq> []" "well_formed ts"
    by (simp_all add: lv well_formed_Cons)
  with Cons show ?case
    by (simp add: lv substitute_from_Cons replacement_pin)
qed

lemma substitute_idem:
  assumes "well_formed options"
  shows "substitute options (substitute options req) = substitute options req"
proof -
  from substitute_from_fixed [of "[]" options None req] assms
  have "\<forall>(l, v) \<in> set options.
      re_sub l (pin l v) None (substitute_from None options req) = substitute_from None options req"
    by simp
  from substitute_from_all_fixed [OF assms this] show ?thesis
    by (simp add: substitute_from_None)
qed

subsection \<open>What the substitution keeps of a requirement\<close>

lemma space_chars [simp]: "is_space CHR '' ''" "\<not> is_space CHR ''#''" "\<not> is_space CHR ''=''"
  "\<not> is_space CHR ''.''"
  by (simp_all add: is_space_def)

lemma not_verchar_hash: "\<not> is_verchar CHR ''#''"
  by (simp add: is_verchar_def is_digit_def)

lemma verchar_not_space:
  assumes "is_verchar c"
  shows "\<not> is_space c"
proof -
  from assms consider "c = CHR ''.''" | "is_digit c"
    by (auto simp: is_verchar_def)
  then show ?thesis
  proof cases
    case 1
    then show ?thesis by simp
  next
    case 2
    then show ?thesis by (simp add: is_digit_def is_space_def Let_def)
  qed
qed

lemma re_sub_set: "set (re_sub lib repl p y) \<subseteq> set y \<union> set repl"
proof (induction lib repl p y rule: re_sub.induct)
  case (1 lib repl prev)
  then show ?case by simp
next
  case (2 lib repl prev c cs)
  show ?case
  proof (cases "lib \<noteq> [] \<and> match_here lib prev (c # cs)")
    case True
    with 2(1) [OF True refl]
    have "set (re_sub lib repl (Some (last (take (match_len lib (c # cs)) (c # cs))))
              (drop (match_len lib (c # cs)) (c # cs)))
          \<subseteq> set (drop (match_len lib (c # cs)) (c # cs)) \<union> set repl"
      by simp
    moreover have "set (drop (match_len lib (c # cs)) (c # cs)) \<subseteq> set (c # cs)"
      by (rule set_drop_subset)
    ultimately show ?thesis
      using True by (subst re_sub.simps(2)) (auto simp: Let_def)
  next
    case False
    with 2(2) [OF False] show ?thesis
      by (subst re_sub.simps(2)) auto
  qed
qed

lemma pin_not_Nil: "is_name lib \<Longrightarrow> pin lib v \<noteq> []"
  by (simp add: pin_def is_name_def)

lemma hd_pin: "is_name lib \<Longrightarrow> hd (pin lib v) = hd lib"
  by (simp add: pin_def is_name_def)

lemma last_pin: "v \<noteq> [] \<Longrightarrow> last (pin lib v) = last v"
  by (simp add: pin_def)

lemma pin_no_hash:
  assumes "is_name lib" "list_all is_verchar v"
  shows "CHR ''#'' \<notin> set (pin lib v)"
proof
  assume "CHR ''#'' \<in> set (pin lib v)"
  then have "CHR ''#'' \<in> set lib \<or> CHR ''#'' \<in> set v"
    by (simp add: pin_def)
  then show False
  proof
    assume "CHR ''#'' \<in> set lib"
    with assms(1) have "is_word CHR ''#''"
      unfolding is_name_def list_all_iff by blast
    then show False by simp
  next
    assume "CHR ''#'' \<in> set v"
    with assms(2) have "is_verchar CHR ''#''"
      by (simp add: list_all_iff)
    with not_verchar_hash show False by simp
  qed
qed

lemma re_sub_hd:
  assumes "is_name lib" "y \<noteq> []"
  shows "re_sub lib (pin lib v) p y \<noteq> [] \<and> hd (re_sub lib (pin lib v) p y) = hd y"
proof -
  from assms(2) obtain c cs where y: "y = c # cs"
    by (cases y) auto
  from assms(1) have ne: "lib \<noteq> []"
    by (simp add: is_name_def)
  show ?thesis
  proof (cases "match_here lib p (c # cs)")
    case True
    from match_here_hd [OF ne True] have "hd lib = c"
      by simp
    with True show ?thesis
      unfolding y by (simp add: re_sub_match [OF ne True] pin_not_Nil [OF assms(1)] hd_pin [OF assms(1)])
  next
    case False
    then show ?thesis
      unfolding y by (simp add: re_sub_nomatch)
  qed
qed

lemma re_sub_last:
  assumes "is_name lib" "v \<noteq> []" "list_all is_verchar v"
  shows "y \<noteq> [] \<Longrightarrow> \<not> is_space (last y) \<Longrightarrow> \<not> is_space (last (re_sub lib (pin lib v) p y))"
proof (induction "length y" arbitrary: y p rule: less_induct)
  case less
  from less.prems(1) obtain c cs where y: "y = c # cs"
    by (cases y) auto
  from assms(1) have ne: "lib \<noteq> []"
    by (simp add: is_name_def)
  from assms(2,3) have lv: "\<not> is_space (last v)"
    by (intro verchar_not_space) (simp add: list_all_iff)
  show ?case
  proof (cases "match_here lib p (c # cs)")
    case True
    let ?n = "match_len lib (c # cs)"
    let ?r = "drop ?n (c # cs)"
    have r: "re_sub lib (pin lib v) p y
        = pin lib v @ re_sub lib (pin lib v) (Some (last (take ?n (c # cs)))) ?r"
      unfolding y by (rule re_sub_match [OF ne True])
    show ?thesis
    proof (cases "?r = []")
      case True
      with r lv show ?thesis
        by (simp add: last_pin [OF assms(2)] pin_not_Nil [OF assms(1)])
    next
      case False
      have "0 < ?n"
        using ne by (simp add: match_len_def)
      then have len: "length ?r < length y"
        by (simp add: y)
      from False have "last ?r = last y"
        by (simp add: y)
      with less.prems(2) have "\<not> is_space (last ?r)"
        by simp
      from less.hyps [OF len False this] re_sub_hd [OF assms(1) False] r show ?thesis
        by simp
    qed
  next
    case False
    show ?thesis
    proof (cases "cs = []")
      case True
      with False less.prems(2) show ?thesis
        unfolding y by (simp add: re_sub_nomatch)
    next
      case nn: False
      with less.prems(2) have "\<not> is_space (last cs)"
        by (simp add: y)
      from less.hyps [OF _ nn this, of "Some c"] re_sub_hd [OF assms(1) nn, of v "Some c"] False
      show ?thesis
        unfolding y by (simp add: re_sub_nomatch)
    qed
  qed
qed

lemma re_sub_trimmed:
  assumes "is_name lib" "v \<noteq> []" "list_all is_verchar v" "trimmed y"
  shows "trimmed (re_sub lib (pin lib v) p y)"
  using assms(4) re_sub_hd [OF assms(1), of y v p] re_sub_last [OF assms(1,2,3), of y p]
    re_sub_set [of lib "pin lib v" p y] pin_no_hash [OF assms(1,3)]
  by (auto simp: trimmed_def)

lemma substitute_from_trimmed:
  "well_formed ts \<Longrightarrow> trimmed y \<Longrightarrow> trimmed (substitute_from p ts y)"
proof (induction ts arbitrary: y)
  case Nil
  then show ?case by simp
next
  case (Cons lv ts)
  obtain l v where lv: "lv = (l, v)" by (cases lv)
  from Cons.prems(1) have w: "is_name l" "v \<noteq> []" "list_all is_verchar v" "well_formed ts"
    by (simp_all add: lv well_formed_Cons)
  from Cons.IH [OF w(4) re_sub_trimmed [OF w(1,2,3) Cons.prems(2)]] show ?case
    by (simp add: lv substitute_from_Cons replacement_pin [OF w(2)])
qed

subsection \<open>Stripping and splitting a line\<close>

lemma rstrip_Nil: "rstrip [] = []"
  by (simp add: rstrip_def)

lemma rstrip_id: "s = [] \<or> \<not> is_space (last s) \<Longrightarrow> rstrip s = s"
proof (cases s rule: rev_cases)
  case Nil
  then show ?thesis by (simp add: rstrip_def)
next
  case (snoc xs x)
  assume "s = [] \<or> \<not> is_space (last s)"
  with snoc show ?thesis by (simp add: rstrip_def)
qed

lemma rstrip_decomp: "\<exists>w. s = rstrip s @ w \<and> list_all is_space w"
proof -
  have "rev s = takeWhile is_space (rev s) @ dropWhile is_space (rev s)"
    by simp
  then have "s = rev (dropWhile is_space (rev s)) @ rev (takeWhile is_space (rev s))"
    by (metis rev_append rev_rev_ident)
  moreover have "list_all is_space (rev (takeWhile is_space (rev s)))"
    by (auto simp: list_all_iff dest: set_takeWhileD)
  ultimately show ?thesis
    unfolding rstrip_def by blast
qed

lemma rstrip_last: "rstrip s \<noteq> [] \<Longrightarrow> \<not> is_space (last (rstrip s))"
proof -
  assume a: "rstrip s \<noteq> []"
  then have "dropWhile is_space (rev s) \<noteq> []"
    by (simp add: rstrip_def)
  then have "\<not> is_space (hd (dropWhile is_space (rev s)))"
    by (rule hd_dropWhile)
  with a show ?thesis
    by (simp add: rstrip_def last_rev)
qed

lemma rstrip_hd: "rstrip s \<noteq> [] \<Longrightarrow> hd (rstrip s) = hd s"
  using rstrip_decomp [of s] by (metis hd_append2)

lemma rstrip_set: "set (rstrip s) \<subseteq> set s"
  using rstrip_decomp [of s] by (metis Un_iff set_append subsetI)

lemma rstrip_append_spaces:
  assumes "list_all is_space w"
  shows "rstrip (x @ w) = rstrip x"
proof -
  from assms have "\<And>c. c \<in> set (rev w) \<Longrightarrow> is_space c"
    by (simp add: list_all_iff)
  then have "dropWhile is_space (rev w @ rev x) = dropWhile is_space (rev x)"
    by (rule dropWhile_append2)
  then show ?thesis
    by (simp add: rstrip_def)
qed

lemma strip_id: "s = [] \<or> (\<not> is_space (hd s) \<and> \<not> is_space (last s)) \<Longrightarrow> strip s = s"
proof (cases s)
  case Nil
  then show ?thesis by (simp add: strip_def rstrip_def)
next
  case (Cons c cs)
  assume "s = [] \<or> (\<not> is_space (hd s) \<and> \<not> is_space (last s))"
  with Cons have "dropWhile is_space s = s" "\<not> is_space (last s)"
    by simp_all
  then show ?thesis
    by (simp add: strip_def rstrip_id)
qed

lemma strip_ends: "strip s = [] \<or> (\<not> is_space (hd (strip s)) \<and> \<not> is_space (last (strip s)))"
proof (cases "strip s = []")
  case True
  then show ?thesis by simp
next
  case False
  let ?t = "dropWhile is_space s"
  from False have r: "rstrip ?t \<noteq> []"
    by (simp add: strip_def)
  have "?t \<noteq> []"
  proof
    assume e: "?t = []"
    show False
      using r unfolding e rstrip_Nil by simp
  qed
  then have "\<not> is_space (hd ?t)"
    by (rule hd_dropWhile)
  with rstrip_hd [OF r] rstrip_last [OF r] show ?thesis
    by (simp add: strip_def)
qed

lemma strip_set: "set (strip s) \<subseteq> set s"
  using rstrip_set [of "dropWhile is_space s"] set_dropWhileD [of _ is_space s]
  by (auto simp: strip_def)

lemma strip_strip: "strip (strip s) = strip s"
  using strip_ends [of s] by (intro strip_id) auto

lemma strip_append_spaces:
  assumes "z \<noteq> []" "\<not> is_space (hd z)" "\<not> is_space (last z)"
  shows "strip (z @ ''  '') = z"
proof -
  from assms(1,2) have "dropWhile is_space (z @ ''  '') = z @ ''  ''"
    by (cases z) simp_all
  then show ?thesis
    using assms(3) by (simp add: strip_def rstrip_append_spaces rstrip_id)
qed

lemma split1_none: "sep \<notin> set s \<Longrightarrow> split1 sep s = [s]"
  by (simp add: split1_def Let_def takeWhile_eq_all_conv [THEN iffD2]
      dropWhile_eq_Nil_conv [THEN iffD2])

lemma split1_some: "sep \<notin> set a \<Longrightarrow> split1 sep (a @ sep # b) = [a, b]"
  by (induction a) (auto simp: split1_def)

text \<open>The body of the loop, read off the stripped line.\<close>

lemma adjust_line_plain:
  assumes "CHR ''#'' \<notin> set (strip l)"
  shows "adjust_line options l = (if strip l = [] then [] else substitute options (strip l))"
  using assms
  by (simp add: adjust_line_def split1_none strip_strip Let_def) (simp add: strip_def rstrip_def)

lemma comment_tail:
  assumes "strip l = a @ CHR ''#'' # b"
  shows "strip (''  #'' @ b) = CHR ''#'' # b" and "rstrip (''  #'' @ b) = ''  #'' @ b"
proof -
  from strip_ends [of l] assms have "\<not> is_space (last (CHR ''#'' # b))"
    by simp
  then have e: "\<not> is_space (last (''  #'' @ b))"
    by simp
  then show "rstrip (''  #'' @ b) = ''  #'' @ b"
    by (intro rstrip_id) simp
  from \<open>\<not> is_space (last (CHR ''#'' # b))\<close> have "rstrip (CHR ''#'' # b) = CHR ''#'' # b"
    by (intro rstrip_id) simp
  then show "strip (''  #'' @ b) = CHR ''#'' # b"
    by (simp add: strip_def)
qed

lemma adjust_line_comment:
  assumes "strip l = a @ CHR ''#'' # b" "CHR ''#'' \<notin> set a"
  shows "adjust_line options l =
     (if strip a = [] then CHR ''#'' # b else substitute options (strip a) @ ''  #'' @ b)"
  using comment_tail [OF assms(1)] assms
  by (simp add: adjust_line_def split1_some Let_def)

subsection \<open>Rewriting twice\<close>

lemma substitute_trimmed: "well_formed options \<Longrightarrow> trimmed y \<Longrightarrow> trimmed (substitute options y)"
  by (simp add: substitute_from_None substitute_from_trimmed)

lemma adjust_line_idem:
  assumes wf: "well_formed options"
  shows "adjust_line options (adjust_line options l) = adjust_line options l"
proof (cases "CHR ''#'' \<in> set (strip l)")
  case False
  note plain = adjust_line_plain [OF False, of options]
  show ?thesis
  proof (cases "strip l = []")
    case True
    have "adjust_line options [] = []"
      by (rule adjust_line_plain [of "[]" options, simplified strip_id [of "[]", simplified], simplified])
    with True plain show ?thesis
      by simp
  next
    case nonempty: False
    let ?z = "substitute options (strip l)"
    from nonempty False strip_ends [of l] have "trimmed (strip l)"
      by (simp add: trimmed_def)
    from substitute_trimmed [OF wf this] have z: "trimmed ?z" .
    then have sz: "strip ?z = ?z"
      by (intro strip_id) (simp add: trimmed_def)
    from z have "CHR ''#'' \<notin> set (strip ?z)" "strip ?z \<noteq> []"
      unfolding sz by (simp_all add: trimmed_def)
    from adjust_line_plain [OF this(1), of options] this(2)
    have "adjust_line options ?z = substitute options ?z"
      by (simp add: sz)
    with nonempty plain show ?thesis
      by (simp add: substitute_idem [OF wf])
  qed
next
  case True
  then obtain a b where s: "strip l = a @ CHR ''#'' # b" and a: "CHR ''#'' \<notin> set a"
    using split_list_first by fast
  note comment = adjust_line_comment [OF s a, of options]
  from strip_ends [of l] s have e: "\<not> is_space (last (CHR ''#'' # b))"
    by simp
  show ?thesis
  proof (cases "strip a = []")
    case True
    have "strip (CHR ''#'' # b) = [] @ CHR ''#'' # b"
      using e by (simp add: strip_id)
    from adjust_line_comment [OF this, of options]
    have "adjust_line options (CHR ''#'' # b) = CHR ''#'' # b"
      by (simp add: strip_id)
    with True comment show ?thesis
      by simp
  next
    case False
    let ?z = "substitute options (strip a)"
    from False a strip_ends [of a] strip_set [of a] have "trimmed (strip a)"
      by (auto simp: trimmed_def)
    from substitute_trimmed [OF wf this] have z: "trimmed ?z" .
    let ?out = "(?z @ ''  '') @ CHR ''#'' # b"
    from z e have "strip ?out = ?out"
      by (intro strip_id) (simp add: trimmed_def)
    moreover from z have "CHR ''#'' \<notin> set (?z @ ''  '')"
      by (simp add: trimmed_def)
    ultimately have "adjust_line options ?out =
       (if strip (?z @ ''  '') = [] then CHR ''#'' # b
        else substitute options (strip (?z @ ''  '')) @ ''  #'' @ b)"
      by (rule adjust_line_comment)
    moreover from z have "strip (?z @ ''  '') = ?z" "?z \<noteq> []"
      by (simp_all add: trimmed_def strip_append_spaces)
    ultimately have "adjust_line options ?out = ?z @ ''  #'' @ b"
      by (simp add: substitute_idem [OF wf])
    with False comment show ?thesis
      by simp
  qed
qed

text \<open>
  C5: rewriting is idempotent. For a version that \<open>find_latest\<close> accepts, \<open>adjust\<close> returns a
  list of lines, and \<open>adjust\<close> on that list with the same version returns it again: every
  line of the first result is a fixed point of the second rewrite.
\<close>

theorem adjust_idempotent:
  assumes "find_latest v = Inr options"
  shows "\<exists>out. adjust installed requires (Some v) = Inr out
     \<and> adjust installed out (Some v) = Inr out"
proof -
  from find_latest_not_Nil [OF assms] assms
  have a: "\<And>ls. adjust installed ls (Some v) = Inr (map (adjust_line options) ls)"
    by (simp add: adjust_def foldl_snoc_map)
  have "map (adjust_line options) (map (adjust_line options) requires)
      = map (adjust_line options) requires"
    by (simp add: adjust_line_idem [OF find_latest_well_formed [OF assms]])
  with a show ?thesis
    by simp
qed

theorem adjust_idempotent_witness:
  "find_latest ''2.1.0'' = Inr [(''torch'', ''2.1.0''), (''torchvision'', ''0.16.0''),
      (''torchtext'', ''0.16.0''), (''torchaudio'', ''2.1.0'')]
   \<and> adjust None [''torchvision torch'', '' # note''] (Some ''2.1.0'')
       = Inr [''torchvision==0.16.0'', ''# note'']
   \<and> adjust None [''torchvision==0.16.0'', ''# note''] (Some ''2.1.0'')
       = Inr [''torchvision==0.16.0'', ''# note'']"
proof -
  let ?o = "[(''torch'', ''2.1.0''), (''torchvision'', ''0.16.0''),
      (''torchtext'', ''0.16.0''), (''torchaudio'', ''2.1.0'')]"
  have l: "adjust_line ?o ''torchvision torch'' = ''torchvision==0.16.0''"
     "adjust_line ?o '' # note'' = ''# note''"
    by (simp_all add: rewrite_defs)
  have a: "adjust None [''torchvision torch'', '' # note''] (Some ''2.1.0'')
       = Inr [''torchvision==0.16.0'', ''# note'']"
    by (simp add: adjust_def opts_2_1_0 l)
  from adjust_idempotent [OF opts_2_1_0, of None "[''torchvision torch'', '' # note'']"] a
  have "adjust None [''torchvision==0.16.0'', ''# note''] (Some ''2.1.0'')
       = Inr [''torchvision==0.16.0'', ''# note'']"
    by simp
  with a opts_2_1_0 show ?thesis
    by simp
qed

subsection \<open>How many substitutions a requirement gets\<close>

text \<open>
  C9, as the claim states it, fails: for the dictionary of version 2.1.0 and the requirement
  \<open>torchvision torch\<close> the rule of \<open>torch\<close> matches first and gives
  \<open>torchvision torch==2.1.0\<close>, and the rule of \<open>torchvision\<close>, which comes after it, rewrites
  that result to \<open>torchvision==0.16.0\<close>.
\<close>

theorem later_rule_rewrites_substituted_result:
  "\<not> first_match_wins [(''torch'', ''2.1.0''), (''torchvision'', ''0.16.0''),
      (''torchtext'', ''0.16.0''), (''torchaudio'', ''2.1.0'')] ''torchvision torch''"
  by (simp add: first_match_wins_def rewrite_defs)

lemma two_substitutions:
  "re_sub ''torch'' (replacement ''torch'' ''2.1.0'') None ''torchvision torch''
     = ''torchvision torch==2.1.0''"
  "re_sub ''torchvision'' (replacement ''torchvision'' ''0.16.0'') None ''torchvision torch==2.1.0''
     = ''torchvision==0.16.0''"
  by (simp_all add: rewrite_defs)

lemma lookahead_word: "lookahead (c # t) \<Longrightarrow> \<not> is_word c"
  by (simp add: lookahead_def)

lemma match_here_name_prefix:
  assumes "is_name lj" "is_name lk" "lookahead t" "match_here lj p (lk @ t)"
  shows "lj = lk"
proof -
  from assms(4) have tk: "take (length lj) (lk @ t) = lj"
    and la: "lookahead (drop (length lj) (lk @ t))"
    by (simp_all add: match_here_def)
  have "\<not> length lk < length lj"
  proof
    assume less: "length lk < length lj"
    from tk have "length lj \<le> length (lk @ t)"
      by (rule take_eq_length)
    with less obtain c t' where t: "t = c # t'"
      by (cases t) auto
    with less have "c \<in> set (take (length lj) (lk @ t))"
      by (auto simp: take_Cons')
    with tk assms(1) have "is_word c"
      unfolding is_name_def list_all_iff by metis
    with assms(3) t show False
      by (auto dest: lookahead_word)
  qed
  moreover have "\<not> length lj < length lk"
  proof
    assume less: "length lj < length lk"
    then obtain x xs where d: "drop (length lj) lk = x # xs"
      by (cases "drop (length lj) lk") auto
    then have "x \<in> set lk"
      by (metis in_set_dropD list.set_intros(1))
    with assms(2) have "is_word x"
      unfolding is_name_def list_all_iff by blast
    with la less d show False
      by (simp add: lookahead_def)
  qed
  ultimately have "length lj = length lk"
    by simp
  with tk show ?thesis
    by simp
qed

lemma re_sub_after_name:
  assumes "is_name lj" "is_name lk" "lj \<noteq> lk" "lookahead t"
  shows "re_sub lj repl p (lk @ t) = lk @ re_sub lj repl (Some (last lk)) t"
proof -
  from assms(2) obtain c w where lk: "lk = c # w" and w: "is_word c" "list_all is_word w"
    by (cases lk) (auto simp: is_name_def)
  from match_here_name_prefix [OF assms(1,2,4)] assms(3) have "\<not> match_here lj p (lk @ t)"
    by blast
  then have "re_sub lj repl p (lk @ t) = c # re_sub lj repl (Some c) (w @ t)"
    by (simp add: lk re_sub_nomatch)
  also have "\<dots> = c # w @ re_sub lj repl (Some (last (c # w))) t"
    using re_sub_skip_word_run [OF assms(1) w(2) w(1)] by simp
  finally show ?thesis
    by (simp add: lk)
qed

lemma lookahead_re_sub:
  assumes "is_name lib" "lookahead t"
  shows "lookahead (re_sub lib (pin lib v) p t)"
proof (cases t)
  case Nil
  then show ?thesis by (simp add: lookahead_def)
next
  case (Cons c cs)
  with re_sub_hd [OF assms(1), of t v p] obtain cs' where "re_sub lib (pin lib v) p t = c # cs'"
    by (cases "re_sub lib (pin lib v) p t") auto
  with assms(2) Cons show ?thesis
    by (simp add: lookahead_def)
qed

lemma substitute_from_append:
  "substitute_from p (ds @ ts) y = substitute_from p ts (substitute_from p ds y)"
  by (simp add: substitute_from_def)

lemma substitute_from_other_names:
  "well_formed ds \<Longrightarrow> is_name lib \<Longrightarrow> lib \<notin> fst ` set ds \<Longrightarrow> lookahead t \<Longrightarrow> LF \<notin> set t \<Longrightarrow>
   \<exists>t'. substitute_from p ds (lib @ t) = lib @ t' \<and> lookahead t' \<and> LF \<notin> set t'"
proof (induction ds arbitrary: t)
  case Nil
  then show ?case by simp
next
  case (Cons lv ds)
  obtain l v where lv: "lv = (l, v)" by (cases lv)
  from Cons.prems(1) have w: "is_name l" "v \<noteq> []" "list_all is_verchar v" "well_formed ds"
    by (simp_all add: lv well_formed_Cons)
  from Cons.prems(3) have ne: "l \<noteq> lib" and fresh: "lib \<notin> fst ` set ds"
    by (auto simp: lv)
  let ?t = "re_sub l (pin l v) (Some (last lib)) t"
  have 1: "re_sub l (pin l v) p (lib @ t) = lib @ ?t"
    by (rule re_sub_after_name [OF w(1) Cons.prems(2) ne Cons.prems(4)])
  have 2: "lookahead ?t"
    by (rule lookahead_re_sub [OF w(1) Cons.prems(4)])
  have 3: "LF \<notin> set ?t"
    by (rule re_sub_line_no_LF [OF w(1) Cons.prems(5) pin_no_LF [OF w(1,3)]])
  from Cons.IH [OF w(4) Cons.prems(2) fresh 2 3] show ?case
    by (simp add: lv substitute_from_Cons replacement_pin [OF w(2)] 1)
qed

lemma substitute_from_pin_fixed:
  "well_formed ts \<Longrightarrow> is_name lib \<Longrightarrow> list_all is_verchar v \<Longrightarrow> lib \<notin> fst ` set ts \<Longrightarrow>
   substitute_from p ts (pin lib v) = pin lib v"
proof (induction ts)
  case Nil
  then show ?case by simp
next
  case (Cons lv ts)
  obtain l' v' where lv: "lv = (l', v')" by (cases lv)
  from Cons.prems(1) have w: "is_name l'" "v' \<noteq> []" "well_formed ts"
    by (simp_all add: lv well_formed_Cons)
  from Cons.prems(4) have "l' \<noteq> lib" "lib \<notin> fst ` set ts"
    by (auto simp: lv)
  then have "re_sub l' (pin l' v') p (pin lib v) = pin lib v"
    by (intro re_sub_pin_fixed [OF w(1) Cons.prems(2,3)]) simp
  with Cons.IH [OF w(3) Cons.prems(2,3) \<open>lib \<notin> fst ` set ts\<close>] show ?case
    by (simp add: lv substitute_from_Cons replacement_pin [OF w(2)])
qed

lemma substitute_leading_name:
  assumes "well_formed options" "(lib, version) \<in> set options" "lookahead t" "LF \<notin> set t"
  shows "substitute options (lib @ t) = pin lib version"
proof -
  from assms(2) obtain ds ts where o: "options = ds @ (lib, version) # ts"
    by (auto dest: split_list)
  from assms(1) have wf: "well_formed ds" "well_formed ts" and n: "is_name lib" "version \<noteq> []"
      "list_all is_verchar version" and fresh: "lib \<notin> fst ` set ds" "lib \<notin> fst ` set ts"
    unfolding o well_formed_def by auto
  from substitute_from_other_names [OF wf(1) n(1) fresh(1) assms(3,4), of None]
  obtain t' where t': "substitute_from None ds (lib @ t) = lib @ t'" "lookahead t'" "LF \<notin> set t'"
    by blast
  from n(1) have "word_boundary None (lib @ t')"
    by (cases lib) (simp_all add: is_name_def word_boundary_def)
  with t'(2) have "match_here lib None (lib @ t')"
    by (simp add: match_here_def)
  moreover from t'(3) is_name_LF [OF n(1)] have "LF \<notin> set (lib @ t')"
    by simp
  ultimately have "re_sub lib (pin lib version) None (lib @ t') = pin lib version"
    using re_sub_line_match [OF n(1)] by blast
  with t'(1) substitute_from_pin_fixed [OF wf(2) n(1,3) fresh(2), of None] show ?thesis
    by (simp add: substitute_from_None o substitute_from_append substitute_from_Cons
        replacement_pin [OF n(2)])
qed

lemma re_sub_line_shape_match:
  assumes "is_name lib" "LF \<notin> set s"
  shows "re_sub lib repl p s = s
     \<or> (\<exists>a t. s = a @ lib @ t \<and> match_here lib (if a = [] then p else Some (last a)) (lib @ t)
           \<and> re_sub lib repl p s = a @ repl)"
  using assms(2)
proof (induction s arbitrary: p)
  case Nil
  then show ?case by simp
next
  case (Cons c cs)
  show ?case
  proof (cases "match_here lib p (c # cs)")
    case True
    then have "c # cs = lib @ drop (length lib) (c # cs)"
      by (simp add: match_here_def) (metis append_take_drop_id)
    with True have "c # cs = [] @ lib @ drop (length lib) (c # cs)
        \<and> match_here lib (if [] = ([]::string) then p else Some (last []))
             (lib @ drop (length lib) (c # cs))"
      by simp
    moreover have "re_sub lib repl p (c # cs) = [] @ repl"
      using re_sub_line_match [OF assms(1) Cons.prems True] by simp
    ultimately show ?thesis by blast
  next
    case False
    from Cons have "re_sub lib repl (Some c) cs = cs
       \<or> (\<exists>a t. cs = a @ lib @ t
             \<and> match_here lib (if a = [] then Some c else Some (last a)) (lib @ t)
             \<and> re_sub lib repl (Some c) cs = a @ repl)"
      by simp
    then show ?thesis
    proof
      assume "re_sub lib repl (Some c) cs = cs"
      with False show ?thesis by (simp add: re_sub_nomatch)
    next
      assume "\<exists>a t. cs = a @ lib @ t
             \<and> match_here lib (if a = [] then Some c else Some (last a)) (lib @ t)
             \<and> re_sub lib repl (Some c) cs = a @ repl"
      then obtain a t where a: "cs = a @ lib @ t"
        "match_here lib (if a = [] then Some c else Some (last a)) (lib @ t)"
        "re_sub lib repl (Some c) cs = a @ repl"
        by blast
      from a(2) have "match_here lib (if c # a = [] then p else Some (last (c # a))) (lib @ t)"
        by (cases "a = []") simp_all
      with False a(1,3) have "c # cs = (c # a) @ lib @ t
          \<and> match_here lib (if c # a = [] then p else Some (last (c # a))) (lib @ t)
          \<and> re_sub lib repl p (c # cs) = (c # a) @ repl"
        by (simp add: re_sub_nomatch)
      then show ?thesis by blast
    qed
  qed
qed

lemma no_match_inside_pin:
  assumes "is_name l" "is_name l'" "list_all is_verchar v" "pin l v = x @ l' @ t'" "x \<noteq> []"
    and "match_here l' (Some (last x)) (l' @ t')"
  shows False
proof -
  from assms(4) have "l @ (CHR ''='' # CHR ''='' # v) = x @ (l' @ t')"
    by (simp add: pin_def)
  then consider us where "l = x @ us" | us where "x = l @ us" "CHR ''='' # CHR ''='' # v = us @ l' @ t'"
    by (auto simp: append_eq_append_conv2)
  then show False
  proof cases
    case 1
    with assms(5) have "last x \<in> set l"
      by simp
    with assms(1) have "is_word (last x)"
      unfolding is_name_def list_all_iff by blast
    from match_here_after_word [OF assms(2) this] assms(6) show False
      by blast
  next
    case 2
    from assms(2) have "hd l' \<in> set l'"
      by (simp add: is_name_def)
    then have "hd l' \<in> set (us @ l' @ t')"
      by simp
    with 2(2) verchar_not_name_head [OF assms(2,3)] show False
      by metis
  qed
qed

lemma substitute_from_one_pin:
  "well_formed (ds @ ts) \<Longrightarrow> LF \<notin> set req \<Longrightarrow>
   y = req \<or> (\<exists>a l v. (l, v) \<in> set ds \<and> strict_prefix a req \<and> y = a @ pin l v) \<Longrightarrow>
   substitute_from p ts y = req
   \<or> (\<exists>a l v. (l, v) \<in> set (ds @ ts) \<and> strict_prefix a req \<and> substitute_from p ts y = a @ pin l v)"
proof (induction ts arbitrary: ds y)
  case Nil
  then show ?case by simp
next
  case (Cons lv ts)
  obtain l' v' where lv: "lv = (l', v')" by (cases lv)
  from well_formed_append_Cons [OF Cons.prems(1) [unfolded lv]]
  have n: "is_name l'" "v' \<noteq> []" "list_all is_verchar v'"
    and wf: "well_formed ((ds @ [(l', v')]) @ ts)"
    by simp_all
  let ?y = "re_sub l' (pin l' v') p y"
  have ly: "LF \<notin> set y"
  proof -
    from Cons.prems(3) show ?thesis
    proof
      assume "y = req"
      with Cons.prems(2) show ?thesis by simp
    next
      assume "\<exists>a l v. (l, v) \<in> set ds \<and> strict_prefix a req \<and> y = a @ pin l v"
      then obtain a l v where a: "(l, v) \<in> set ds" "strict_prefix a req" "y = a @ pin l v"
        by blast
      from well_formed_mem [OF well_formed_appendD [OF Cons.prems(1)] a(1)]
      have "LF \<notin> set (pin l v)"
        by (intro pin_no_LF) simp_all
      moreover from a(2) Cons.prems(2) have "LF \<notin> set a"
        by (auto simp: strict_prefix_def prefix_def)
      ultimately show ?thesis
        by (simp add: a(3))
    qed
  qed
  have "?y = req \<or> (\<exists>a l v. (l, v) \<in> set (ds @ [(l', v')]) \<and> strict_prefix a req \<and> ?y = a @ pin l v)"
    using re_sub_line_shape_match [OF n(1) ly, of "pin l' v'" p]
  proof
    assume "?y = y"
    with Cons.prems(3) show ?thesis by auto
  next
    assume "\<exists>a t. y = a @ l' @ t \<and> match_here l' (if a = [] then p else Some (last a)) (l' @ t)
           \<and> ?y = a @ pin l' v'"
    then obtain a' t' where a': "y = a' @ l' @ t'"
      "match_here l' (if a' = [] then p else Some (last a')) (l' @ t')" "?y = a' @ pin l' v'"
      by blast
    from n(1) have ne: "l' \<noteq> []"
      by (simp add: is_name_def)
    have "strict_prefix a' req"
      using Cons.prems(3)
    proof
      assume "y = req"
      with a'(1) ne show ?thesis
        by (simp add: strict_prefix_def prefix_def)
    next
      assume "\<exists>a l v. (l, v) \<in> set ds \<and> strict_prefix a req \<and> y = a @ pin l v"
      then obtain a l v where a: "(l, v) \<in> set ds" "strict_prefix a req" "y = a @ pin l v"
        by blast
      from well_formed_mem [OF well_formed_appendD [OF Cons.prems(1)] a(1)]
      have m: "is_name l" "list_all is_verchar v"
        by simp_all
      from a(3) a'(1) have "a @ pin l v = a' @ (l' @ t')"
        by simp
      then consider us where "a = a' @ us" | us where "a' = a @ us" "pin l v = us @ l' @ t'"
        by (auto simp: append_eq_append_conv2)
      then show ?thesis
      proof cases
        case 1
        with a(2) show ?thesis
          by (auto simp: strict_prefix_def prefix_def)
      next
        case 2
        show ?thesis
        proof (cases "us = []")
          case True
          with 2(1) a(2) show ?thesis by simp
        next
          case False
          with 2(1) a'(2) have "match_here l' (Some (last us)) (l' @ t')"
            by simp
          from no_match_inside_pin [OF m(1) n(1) m(2) 2(2) False this] show ?thesis ..
        qed
      qed
    qed
    with a'(3) show ?thesis by auto
  qed
  from Cons.IH [OF wf Cons.prems(2) this] show ?case
    by (simp add: lv substitute_from_Cons replacement_pin [OF n(2)])
qed

lemma find_latest_keys:
  assumes "find_latest v = Inr options"
  shows "\<exists>ver tv tt ta. options = [(''torch'', ver), (''torchvision'', tv), (''torchtext'', tt),
                 (''torchaudio'', ta)]"
  using assms by (auto simp: find_latest_def Let_def split: sum.splits)

text \<open>
  C9, amended: the loop applies the rules of \<open>torch\<close>, \<open>torchvision\<close>, \<open>torchtext\<close> and
  \<open>torchaudio\<close> one after the other, each to the result of the one before, without stopping
  at a match. On a requirement part without line feed the result still carries at most one
  pin: it is the requirement part unchanged, or a proper prefix of it followed by the pin
  of one companion. When the requirement part begins with a companion name that is not
  followed by an identifier character, a hyphen or an underscore, the result is that
  companion's pin.
\<close>

theorem substitutions_in_sequence:
  assumes "find_latest v = Inr options"
  shows "(\<exists>ver tv tt ta.
        options = [(''torch'', ver), (''torchvision'', tv), (''torchtext'', tt), (''torchaudio'', ta)]
        \<and> substitute options req =
            re_sub ''torchaudio'' (pin ''torchaudio'' ta) None
              (re_sub ''torchtext'' (pin ''torchtext'' tt) None
                (re_sub ''torchvision'' (pin ''torchvision'' tv) None
                  (re_sub ''torch'' (pin ''torch'' ver) None req))))
    \<and> (LF \<notin> set req \<longrightarrow>
         substitute options req = req
         \<or> (\<exists>a lib version. (lib, version) \<in> set options \<and> strict_prefix a req
               \<and> substitute options req = a @ pin lib version))
    \<and> (\<forall>lib version t. (lib, version) \<in> set options \<and> lookahead t \<and> LF \<notin> set t \<longrightarrow>
          substitute options (lib @ t) = pin lib version)"
proof (intro conjI impI allI)
  note wf = find_latest_well_formed [OF assms]
  from find_latest_keys [OF assms] obtain ver tv tt ta where
    o: "options = [(''torch'', ver), (''torchvision'', tv), (''torchtext'', tt), (''torchaudio'', ta)]"
    by blast
  from wf have "ver \<noteq> []" "tv \<noteq> []" "tt \<noteq> []" "ta \<noteq> []"
    by (simp_all add: o well_formed_def)
  then have "substitute options req =
            re_sub ''torchaudio'' (pin ''torchaudio'' ta) None
              (re_sub ''torchtext'' (pin ''torchtext'' tt) None
                (re_sub ''torchvision'' (pin ''torchvision'' tv) None
                  (re_sub ''torch'' (pin ''torch'' ver) None req)))"
    by (simp add: o substitute_def replacement_pin)
  with o show "\<exists>ver tv tt ta.
        options = [(''torch'', ver), (''torchvision'', tv), (''torchtext'', tt), (''torchaudio'', ta)]
        \<and> substitute options req =
            re_sub ''torchaudio'' (pin ''torchaudio'' ta) None
              (re_sub ''torchtext'' (pin ''torchtext'' tt) None
                (re_sub ''torchvision'' (pin ''torchvision'' tv) None
                  (re_sub ''torch'' (pin ''torch'' ver) None req)))"
    by blast
  show "substitute options req = req
         \<or> (\<exists>a lib version. (lib, version) \<in> set options \<and> strict_prefix a req
               \<and> substitute options req = a @ pin lib version)" if "LF \<notin> set req"
    using substitute_from_one_pin [of "[]" options req req None] wf that
    by (simp add: substitute_from_None)
  show "substitute options (lib @ t) = pin lib version"
    if "(lib, version) \<in> set options \<and> lookahead t \<and> LF \<notin> set t" for lib version t
    using substitute_leading_name [OF wf, of lib version t] that by blast
qed

theorem substitutions_in_sequence_witness:
  "find_latest ''2.1.0'' = Inr [(''torch'', ''2.1.0''), (''torchvision'', ''0.16.0''),
      (''torchtext'', ''0.16.0''), (''torchaudio'', ''2.1.0'')]
   \<and> substitute [(''torch'', ''2.1.0''), (''torchvision'', ''0.16.0''),
      (''torchtext'', ''0.16.0''), (''torchaudio'', ''2.1.0'')] ''torchvision torch''
     = ''torchvision==0.16.0''"
proof -
  let ?o = "[(''torch'', ''2.1.0''), (''torchvision'', ''0.16.0''),
      (''torchtext'', ''0.16.0''), (''torchaudio'', ''2.1.0'')]"
  have a: "(''torchvision'', ''0.16.0'') \<in> set ?o \<and> lookahead '' torch'' \<and> LF \<notin> set '' torch''"
    by (simp add: lookahead_def is_word_def)
  from substitutions_in_sequence [OF opts_2_1_0, of "''torchvision torch''", THEN conjunct2,
      THEN conjunct2, rule_format, OF a]
  have "substitute ?o (''torchvision'' @ '' torch'') = pin ''torchvision'' ''0.16.0''" .
  with opts_2_1_0 show ?thesis
    by (simp add: pin_def)
qed

subsection \<open>Names that extend a companion name\<close>

lemma substitute_unchanged:
  "(\<forall>(l, v) \<in> set ts. re_sub l (replacement l v) None z = z) \<Longrightarrow> substitute ts z = z"
  unfolding substitute_def by (induction ts) auto

lemma name_continues_drop:
  "name_continues lib s p \<Longrightarrow> \<not> lookahead (drop (length lib) (drop p s))"
  by (auto simp: name_continues_def lookahead_def add.commute split: list.splits)

text \<open>
  C3, as the claim states it, fails in its last part: a requirement for a package whose
  name strictly extends a companion name can be rewritten by the rule of the shorter name.
  The package name of \<open>torch-torch>=1\<close> is \<open>torch-torch\<close>, which strictly extends \<open>torch\<close>; the
  first occurrence of \<open>torch\<close> is followed by a hyphen and is no match, the second stands
  after the hyphen, at a word boundary, and is followed by \<open>>\<close>: the rule of \<open>torch\<close> gives
  \<open>torch-torch==2.1.0\<close>.
\<close>

theorem longer_name_rewritten_by_shorter_rule:
  "rewritten_extension ''torch'' ''torch==2.1.0'' ''torch-torch>=1''
   \<and> package_name ''torch-torch>=1'' = ''torch-torch''
   \<and> re_sub ''torch'' ''torch==2.1.0'' None ''torch-torch>=1'' = ''torch-torch==2.1.0''
   \<and> adjust_line [(''torch'', ''2.1.0''), (''torchvision'', ''0.16.0''),
         (''torchtext'', ''0.16.0''), (''torchaudio'', ''2.1.0'')] ''torch-torch>=1''
       = ''torch-torch==2.1.0''"
  by (simp add: rewritten_extension_def package_name_def is_name_char_def rewrite_defs)

text \<open>Other longer names the rule of \<open>torch\<close> rewrites.\<close>

lemma rewritten_examples:
  "re_sub ''torch'' ''torch==2.1.0'' None ''torch.foo>=1'' = ''torch==2.1.0''"
  "re_sub ''torch'' ''torch==2.1.0'' None ''py-torch>=1'' = ''py-torch==2.1.0''"
  "re_sub ''torch'' ''torch==2.1.0'' None ''torchx[torch]>=0.1'' = ''torchx[torch==2.1.0''"
  "rewritten_extension ''torch'' ''torch==2.1.0'' ''torch.foo>=1''"
  by (simp_all add: rewritten_extension_def package_name_def is_name_char_def rewrite_defs)

text \<open>
  C3, amended: at every position of a string, an occurrence of a name that is immediately
  followed by an identifier character, a hyphen or an underscore is not a match of the
  name's pattern, and a match is an occurrence that is not so followed (another character
  or the end of the string follows). A string in which every occurrence of the name is so
  followed is left unchanged by the name's substitution, as \<open>torchvision\<close> and \<open>torchxyz\<close> are
  by the rule of \<open>torch\<close>; when this holds for every name of the dictionary, the whole loop
  leaves the requirement unchanged.
\<close>

theorem name_followed_by_name_char_not_rewritten:
  "(occurs_at lib s p \<and> name_continues lib s p \<longrightarrow> \<not> match_here lib prev (drop p s))
   \<and> (match_here lib prev (drop p s) \<longrightarrow> occurs_at lib s p \<and> \<not> name_continues lib s p)
   \<and> ((\<forall>p \<in> set [0..<length s]. occurs_at lib s p \<longrightarrow> name_continues lib s p)
        \<longrightarrow> re_sub lib repl prev s = s)
   \<and> ((\<forall>(lib, version) \<in> set options.
          \<forall>p \<in> set [0..<length s]. occurs_at lib s p \<longrightarrow> name_continues lib s p)
        \<longrightarrow> substitute options s = s)"
proof (intro conjI impI)
  assume "occurs_at lib s p \<and> name_continues lib s p"
  then show "\<not> match_here lib prev (drop p s)"
    by (auto simp: match_here_def dest: name_continues_drop)
next
  assume m: "match_here lib prev (drop p s)"
  then show "occurs_at lib s p"
    by (simp add: match_here_def occurs_at_def)
  from m show "\<not> name_continues lib s p"
    by (auto simp: match_here_def dest: name_continues_drop)
next
  assume "\<forall>p \<in> set [0..<length s]. occurs_at lib s p \<longrightarrow> name_continues lib s p"
  then show "re_sub lib repl prev s = s"
    by (rule no_occurrence_no_change)
next
  assume a: "\<forall>(lib, version) \<in> set options.
          \<forall>p \<in> set [0..<length s]. occurs_at lib s p \<longrightarrow> name_continues lib s p"
  have "\<forall>(l, v) \<in> set options. re_sub l (replacement l v) None s = s"
  proof (safe)
    fix l v assume "(l, v) \<in> set options"
    with a have "\<forall>p \<in> set [0..<length s]. occurs_at l s p \<longrightarrow> name_continues l s p"
      by blast
    then show "re_sub l (replacement l v) None s = s"
      by (rule no_occurrence_no_change)
  qed
  then show "substitute options s = s"
    by (rule substitute_unchanged)
qed

theorem name_followed_by_name_char_not_rewritten_witness:
  "occurs_at ''torch'' ''torchvision>=0.10'' 0 \<and> name_continues ''torch'' ''torchvision>=0.10'' 0
   \<and> \<not> match_here ''torch'' None ''torchvision>=0.10''
   \<and> re_sub ''torch'' ''torch==2.1.0'' None ''torchvision>=0.10'' = ''torchvision>=0.10''
   \<and> re_sub ''torch'' ''torch==2.1.0'' None ''torchxyz'' = ''torchxyz''
   \<and> substitute [(''torch'', ''2.1.0''), (''torchvision'', ''0.16.0''),
         (''torchtext'', ''0.16.0''), (''torchaudio'', ''2.1.0'')] ''torch-foo torch_x''
       = ''torch-foo torch_x''"
proof -
  let ?o = "[(''torch'', ''2.1.0''), (''torchvision'', ''0.16.0''),
         (''torchtext'', ''0.16.0''), (''torchaudio'', ''2.1.0'')]"
  have a: "occurs_at ''torch'' ''torchvision>=0.10'' 0 \<and> name_continues ''torch'' ''torchvision>=0.10'' 0"
    by (simp add: occurs_at_def name_continues_def is_word_def)
  have b: "\<forall>p \<in> set [0..<length ''torchvision>=0.10'']. occurs_at ''torch'' ''torchvision>=0.10'' p
             \<longrightarrow> name_continues ''torch'' ''torchvision>=0.10'' p"
    by code_simp
  have c: "\<forall>p \<in> set [0..<length ''torchxyz'']. occurs_at ''torch'' ''torchxyz'' p
             \<longrightarrow> name_continues ''torch'' ''torchxyz'' p"
    by code_simp
  have d: "\<forall>(lib, version) \<in> set ?o. \<forall>p \<in> set [0..<length ''torch-foo torch_x''].
             occurs_at lib ''torch-foo torch_x'' p \<longrightarrow> name_continues lib ''torch-foo torch_x'' p"
    by code_simp
  from name_followed_by_name_char_not_rewritten [where lib = "''torch''"
      and s = "''torchvision>=0.10''" and p = 0 and prev = None and repl = "''torch==2.1.0''"] a b
  have 1: "\<not> match_here ''torch'' None ''torchvision>=0.10''
     \<and> re_sub ''torch'' ''torch==2.1.0'' None ''torchvision>=0.10'' = ''torchvision>=0.10''"
    by simp
  from name_followed_by_name_char_not_rewritten [where lib = "''torch''" and s = "''torchxyz''"
      and prev = None and repl = "''torch==2.1.0''"] c
  have 2: "re_sub ''torch'' ''torch==2.1.0'' None ''torchxyz'' = ''torchxyz''"
    by blast
  from name_followed_by_name_char_not_rewritten [where s = "''torch-foo torch_x''"
      and options = ?o] d
  have 3: "substitute ?o ''torch-foo torch_x'' = ''torch-foo torch_x''"
    by blast
  from a 1 2 3 show ?thesis by blast
qed

end
